theory Spec2Isabelle
  imports Main "HOL-Library.Sublist"
begin

section \<open>JavaScript values held by the store\<close>

text \<open>
  \<^verbatim>\<open>src/index.js\<close> keeps a collection of records in one JSON file.  The values
  that can travel between the file and the program are the JSON values; they
  are modelled by the datatype \<open>json\<close>:

  \<^item> a number is an integer (\<open>Date.now()\<close>, the source of every generated
    \<open>id\<close>, is an integer count of milliseconds); \<open>JNum n\<close> stands for a
    JavaScript number only while \<open>n\<close> is a safe integer, which is part of
    \<open>wf_json\<close>;
  \<^item> \<open>JNaN\<close> is the number \<open>NaN\<close>, which a caller can pass in a record but
    no JSON text denotes: \<open>JSON.stringify\<close> writes it as \<open>null\<close>, and it is
    \<open>===\<close> to nothing, itself included;
  \<^item> a string is a list of \<open>char\<close>, each standing for one code unit below 256;
  \<^item> an object is the list of its own enumerable properties in creation order.
    A JavaScript object has no two properties of the same name, which is the
    other part of \<open>wf_json\<close>.  (JavaScript enumerates integer-like keys first;
    that reordering is not modelled.  It changes the order of the members in
    the text that is written, and nothing that is stated below.)

  \<open>wf_json\<close> holds of the values that a JSON text denotes: \<open>NaN\<close> is not one.
  \<open>undefined\<close> is not a JSON value; where the program can meet it (a missing
  \<open>id\<close> property, an \<open>id\<close> argument that was not passed) it is \<open>None\<close> of
  \<open>json option\<close>.  Numbers with a fraction, the negative zero, \<open>undefined\<close> as
  the value of a field and objects with a \<open>toJSON\<close> method are not modelled.
\<close>

datatype json =
    JNull
  | JBool bool
  | JNum int
  | JNaN
  | JStr string
  | JArr "json list"
  | JObj "(string \<times> json) list"

text \<open>
  The exceptions of the program: \<open>IOError\<close> is \<open>fs.readFileSync\<close> on a path
  with no file, \<open>SyntaxError\<close> is what \<open>JSON.parse\<close> throws, \<open>TypeError\<close> is a
  method call or a property read on a value that does not have it.
  \<open>Unmodelled\<close> is not an exception of JavaScript: the parser below returns it
  on the JSON texts whose value is outside \<open>json\<close> (a number with a fraction or
  an exponent or beyond the safe integers, the negative zero, a \<open>\u\<close> escape
  above \<open>00ff\<close>), so that nothing is stated about them.
\<close>

datatype error = IOError | SyntaxError | TypeError | Unmodelled

definition max_safe_integer :: int where
  "max_safe_integer = 9007199254740991"

fun wf_json :: "json \<Rightarrow> bool" where
  "wf_json JNull = True"
| "wf_json (JBool b) = True"
| "wf_json (JNum n) = (\<bar>n\<bar> \<le> max_safe_integer)"
| "wf_json JNaN = False"
| "wf_json (JStr s) = True"
| "wf_json (JArr xs) = (\<forall>x \<in> set xs. wf_json x)"
| "wf_json (JObj ps) = (distinct (map fst ps) \<and> (\<forall>p \<in> set ps. wf_json (snd p)))"

text \<open>
  Defining a property on an object: an existing property keeps its place and
  takes the new value, a new one is added last.
\<close>

fun set_property :: "string \<Rightarrow> json \<Rightarrow> (string \<times> json) list \<Rightarrow> (string \<times> json) list" where
  "set_property k v [] = [(k, v)]"
| "set_property k v (p # ps) = (if fst p = k then (k, v) # ps else p # set_property k v ps)"

section \<open>\<open>JSON.stringify\<close>\<close>

definition digit_char :: "int \<Rightarrow> char" where
  "digit_char d = char_of (48 + d)"

function digits :: "int \<Rightarrow> string" where
  "digits n = (if n < 10 then [digit_char n] else digits (n div 10) @ [digit_char (n mod 10)])"
  by pat_completeness auto
termination
  by (relation "measure nat") auto

definition number_to_string :: "int \<Rightarrow> string" where
  "number_to_string n = (if n < 0 then CHR ''-'' # digits (- n) else digits n)"

definition hex_char :: "int \<Rightarrow> char" where
  "hex_char d = (if d < 10 then char_of (48 + d) else char_of (87 + d))"

text \<open>
  \<open>QuoteJSONString\<close>: the quote, the backslash and the control characters are
  escaped (the five short escapes, \<open>\u00xx\<close> in lower-case hexadecimal for the
  others); every other character stands for itself.
\<close>

definition escape_char :: "char \<Rightarrow> string" where
  "escape_char c =
     (if c = CHR 0x22 then [CHR 0x5C, CHR 0x22]
      else if c = CHR 0x5C then [CHR 0x5C, CHR 0x5C]
      else if c = CHR 0x08 then [CHR 0x5C, CHR ''b'']
      else if c = CHR 0x0C then [CHR 0x5C, CHR ''f'']
      else if c = CHR 0x0A then [CHR 0x5C, CHR ''n'']
      else if c = CHR 0x0D then [CHR 0x5C, CHR ''r'']
      else if c = CHR 0x09 then [CHR 0x5C, CHR ''t'']
      else if (of_char c :: int) < 32
        then [CHR 0x5C, CHR ''u'', CHR ''0'', CHR ''0'',
              hex_char (of_char c div 16), hex_char (of_char c mod 16)]
      else [c])"

definition quote :: "string \<Rightarrow> string" where
  "quote s = CHR 0x22 # concat (map escape_char s) @ [CHR 0x22]"

text \<open>
  With a gap, every element starts on a line of its own, indented by \<open>ind\<close>
  spaces, and a colon is followed by a space; without one (\<open>gap = 0\<close>) the
  text has no white space at all.
\<close>

definition newline :: "nat \<Rightarrow> nat \<Rightarrow> string" where
  "newline gap ind = (if gap = 0 then [] else CHR 0x0A # replicate ind CHR '' '')"

definition member_sep :: "nat \<Rightarrow> string" where
  "member_sep gap = (if gap = 0 then [] else '' '')"

fun join :: "string \<Rightarrow> string list \<Rightarrow> string" where
  "join sep [] = []"
| "join sep [x] = x"
| "join sep (x # y # ys) = x @ sep @ join sep (y # ys)"

fun serialize :: "nat \<Rightarrow> nat \<Rightarrow> json \<Rightarrow> string" where
  "serialize gap ind JNull = ''null''"
| "serialize gap ind (JBool b) = (if b then ''true'' else ''false'')"
| "serialize gap ind (JNum n) = number_to_string n"
| "serialize gap ind JNaN = ''null''"
| "serialize gap ind (JStr s) = quote s"
| "serialize gap ind (JArr xs) =
     (if xs = [] then ''[]''
      else ''['' @ newline gap (ind + gap)
           @ join ('','' @ newline gap (ind + gap)) (map (serialize gap (ind + gap)) xs)
           @ newline gap ind @ '']'')"
| "serialize gap ind (JObj ps) =
     (if ps = [] then ''{}''
      else ''{'' @ newline gap (ind + gap)
           @ join ('','' @ newline gap (ind + gap))
               (map (\<lambda>p. quote (fst p) @ '':'' @ member_sep gap
                           @ serialize gap (ind + gap) (snd p)) ps)
           @ newline gap ind @ ''}'')"

text \<open>
  \<open>JSON.stringify(value, null, space)\<close> for a numeric \<open>space\<close>, which is clamped
  to 10; \<open>JSON.stringify(value)\<close> is \<open>space = 0\<close>.
\<close>

definition JSON_stringify :: "nat \<Rightarrow> json \<Rightarrow> string" where
  "JSON_stringify space v = serialize (min space 10) 0 v"

section \<open>\<open>JSON.parse\<close>\<close>

definition is_ws :: "char \<Rightarrow> bool" where
  "is_ws c = (c = CHR '' '' \<or> c = CHR 0x09 \<or> c = CHR 0x0A \<or> c = CHR 0x0D)"

definition skip_ws :: "string \<Rightarrow> string" where
  "skip_ws s = dropWhile is_ws s"

definition is_digit :: "char \<Rightarrow> bool" where
  "is_digit c = (48 \<le> (of_char c :: int) \<and> (of_char c :: int) \<le> 57)"

definition digit_val :: "char \<Rightarrow> int" where
  "digit_val c = of_char c - 48"

fun parse_digits :: "int \<Rightarrow> string \<Rightarrow> int \<times> string" where
  "parse_digits acc [] = (acc, [])"
| "parse_digits acc (c # cs) =
     (if is_digit c then parse_digits (10 * acc + digit_val c) cs else (acc, c # cs))"

text \<open>The integer part of a JSON number: a single \<open>0\<close>, or digits that start with \<open>1\<close> to \<open>9\<close>.\<close>

definition parse_int_part :: "string \<Rightarrow> error + (int \<times> string)" where
  "parse_int_part s =
     (case s of
        [] \<Rightarrow> Inl SyntaxError
      | c # cs \<Rightarrow>
          if c = CHR ''0'' then Inr (0, cs)
          else if is_digit c then Inr (parse_digits (digit_val c) cs)
          else Inl SyntaxError)"

definition starts_fraction :: "string \<Rightarrow> bool" where
  "starts_fraction s =
     (case s of [] \<Rightarrow> False | c # cs \<Rightarrow> c = CHR ''.'' \<or> c = CHR ''e'' \<or> c = CHR ''E'')"

definition parse_number :: "string \<Rightarrow> error + (json \<times> string)" where
  "parse_number s =
     (let neg = (case s of [] \<Rightarrow> False | c # cs \<Rightarrow> c = CHR ''-'')
      in case parse_int_part (if neg then tl s else s) of
           Inl e \<Rightarrow> Inl e
         | Inr (n, r) \<Rightarrow>
             if starts_fraction r \<or> max_safe_integer < n \<or> (neg \<and> n = 0)
             then Inl Unmodelled
             else Inr (JNum (if neg then - n else n), r))"

definition hex_val :: "char \<Rightarrow> int option" where
  "hex_val c =
     (let n = (of_char c :: int)
      in if 48 \<le> n \<and> n \<le> 57 then Some (n - 48)
         else if 97 \<le> n \<and> n \<le> 102 then Some (n - 87)
         else if 65 \<le> n \<and> n \<le> 70 then Some (n - 55)
         else None)"

definition unescape :: "char \<Rightarrow> char option" where
  "unescape e =
     (if e = CHR 0x22 then Some (CHR 0x22)
      else if e = CHR 0x5C then Some (CHR 0x5C)
      else if e = CHR ''/'' then Some (CHR ''/'')
      else if e = CHR ''b'' then Some (CHR 0x08)
      else if e = CHR ''f'' then Some (CHR 0x0C)
      else if e = CHR ''n'' then Some (CHR 0x0A)
      else if e = CHR ''r'' then Some (CHR 0x0D)
      else if e = CHR ''t'' then Some (CHR 0x09)
      else None)"

definition hex4 :: "char \<Rightarrow> char \<Rightarrow> char \<Rightarrow> char \<Rightarrow> error + char" where
  "hex4 a b c d =
     (case (hex_val a, hex_val b, hex_val c, hex_val d) of
        (Some h3, Some h2, Some h1, Some h0) \<Rightarrow>
          (let code = 4096 * h3 + 256 * h2 + 16 * h1 + h0
           in if code < 256 then Inr (char_of code) else Inl Unmodelled)
      | _ \<Rightarrow> Inl SyntaxError)"

definition prepend :: "char \<Rightarrow> error + (string \<times> string) \<Rightarrow> error + (string \<times> string)" where
  "prepend c res = (case res of Inl e \<Rightarrow> Inl e | Inr (s, r) \<Rightarrow> Inr (c # s, r))"

text \<open>
  The characters of a string after its opening quote, up to the closing one;
  the result is the string and the text that follows it.
\<close>

fun parse_string_body :: "string \<Rightarrow> error + (string \<times> string)" where
  "parse_string_body [] = Inl SyntaxError"
| "parse_string_body (c # cs) =
     (if c = CHR 0x22 then Inr ([], cs)
      else if c = CHR 0x5C then
        (case cs of
           [] \<Rightarrow> Inl SyntaxError
         | e # r \<Rightarrow>
             if e = CHR ''u'' then
               (case r of
                  h3 # h2 # h1 # h0 # r' \<Rightarrow>
                    (case hex4 h3 h2 h1 h0 of
                       Inl err \<Rightarrow> Inl err
                     | Inr ch \<Rightarrow> prepend ch (parse_string_body r'))
                | _ \<Rightarrow> Inl SyntaxError)
             else
               (case unescape e of
                  None \<Rightarrow> Inl SyntaxError
                | Some ch \<Rightarrow> prepend ch (parse_string_body r)))
      else if (of_char c :: int) < 32 then Inl SyntaxError
      else prepend c (parse_string_body cs))"

definition expect :: "string \<Rightarrow> json \<Rightarrow> string \<Rightarrow> error + (json \<times> string)" where
  "expect lit v s =
     (if take (length lit) s = lit then Inr (v, drop (length lit) s) else Inl SyntaxError)"

text \<open>
  The recursive descent over the text.  \<open>parse_value\<close> reads one value and
  returns it with the rest of the text; \<open>parse_elements\<close> reads the elements
  of an array after its bracket and \<open>parse_members\<close> the members of an object
  after its brace, each with what was read so far.  A member whose name was
  read before replaces the earlier value, as in JavaScript.

  The comparisons of lengths in \<open>parse_elements\<close> and \<open>parse_members\<close> make the
  recursion terminate by construction; \<open>parse_elements_unguarded\<close> and
  \<open>parse_members_unguarded\<close> below show that they are never false, so they
  change no result.
\<close>

function parse_value :: "string \<Rightarrow> error + (json \<times> string)"
  and parse_elements :: "json list \<Rightarrow> string \<Rightarrow> error + (json \<times> string)"
  and parse_members :: "(string \<times> json) list \<Rightarrow> string \<Rightarrow> error + (json \<times> string)"
where
  "parse_value [] = Inl SyntaxError"
| "parse_value (c # cs) =
     (if is_ws c then parse_value cs
      else if c = CHR ''n'' then expect ''ull'' JNull cs
      else if c = CHR ''t'' then expect ''rue'' (JBool True) cs
      else if c = CHR ''f'' then expect ''alse'' (JBool False) cs
      else if c = CHR 0x22 then
        (case parse_string_body cs of
           Inl e \<Rightarrow> Inl e
         | Inr (s, r) \<Rightarrow> Inr (JStr s, r))
      else if c = CHR ''['' then
        (case skip_ws cs of
           [] \<Rightarrow> Inl SyntaxError
         | c' # r \<Rightarrow> if c' = CHR '']'' then Inr (JArr [], r) else parse_elements [] cs)
      else if c = CHR ''{'' then
        (case skip_ws cs of
           [] \<Rightarrow> Inl SyntaxError
         | c' # r \<Rightarrow> if c' = CHR ''}'' then Inr (JObj [], r) else parse_members [] cs)
      else if c = CHR ''-'' \<or> is_digit c then parse_number (c # cs)
      else Inl SyntaxError)"
| "parse_elements acc s =
     (case parse_value s of
        Inl e \<Rightarrow> Inl e
      | Inr (v, r) \<Rightarrow>
          (case skip_ws r of
             [] \<Rightarrow> Inl SyntaxError
           | c # r' \<Rightarrow>
               if c = CHR '','' then
                 (if length r' < length s then parse_elements (acc @ [v]) r'
                  else Inl SyntaxError)
               else if c = CHR '']'' then Inr (JArr (acc @ [v]), r')
               else Inl SyntaxError))"
| "parse_members acc s =
     (case skip_ws s of
        [] \<Rightarrow> Inl SyntaxError
      | c # cs \<Rightarrow>
          if c = CHR 0x22 then
            (case parse_string_body cs of
               Inl e \<Rightarrow> Inl e
             | Inr (k, r) \<Rightarrow>
                 (case skip_ws r of
                    [] \<Rightarrow> Inl SyntaxError
                  | c1 # r1 \<Rightarrow>
                      if c1 = CHR '':'' \<and> length r1 < length s then
                        (case parse_value r1 of
                           Inl e \<Rightarrow> Inl e
                         | Inr (v, r2) \<Rightarrow>
                             (case skip_ws r2 of
                                [] \<Rightarrow> Inl SyntaxError
                              | c2 # r3 \<Rightarrow>
                                  if c2 = CHR '','' then
                                    (if length r3 < length s
                                     then parse_members (set_property k v acc) r3
                                     else Inl SyntaxError)
                                  else if c2 = CHR ''}'' then
                                    Inr (JObj (set_property k v acc), r3)
                                  else Inl SyntaxError))
                      else Inl SyntaxError))
          else Inl SyntaxError)"
  by pat_completeness auto
termination
  by (relation "measure (\<lambda>x. case x of
          Inl s \<Rightarrow> 2 * length s
        | Inr (Inl (acc, s)) \<Rightarrow> 2 * length s + 1
        | Inr (Inr (acc, s)) \<Rightarrow> 2 * length s + 1)")
     auto

definition JSON_parse :: "string \<Rightarrow> error + json" where
  "JSON_parse s =
     (case parse_value s of
        Inl e \<Rightarrow> Inl e
      | Inr (v, r) \<Rightarrow> if skip_ws r = [] then Inr v else Inl SyntaxError)"

section \<open>The file system\<close>

text \<open>
  The files are a map from paths to contents; a content is the text of the
  file as \<open>"utf8"\<close> decodes it, over the characters below 256.  \<open>fs.existsSync\<close>,
  \<open>fs.readFileSync(path, "utf8")\<close> and \<open>fs.writeFileSync(path, content, "utf8")\<close>
  read and update it; reading a path with no file throws.  Failures of the
  operating system other than the missing file (permissions, a missing
  directory, a full disk) are not modelled: a write succeeds.
\<close>

type_synonym fs = "string \<rightharpoonup> string"

definition existsSync :: "string \<Rightarrow> fs \<Rightarrow> bool" where
  "existsSync path files = (files path \<noteq> None)"

definition readFileSync :: "string \<Rightarrow> fs \<Rightarrow> error + string" where
  "readFileSync path files = (case files path of None \<Rightarrow> Inl IOError | Some content \<Rightarrow> Inr content)"

definition writeFileSync :: "string \<Rightarrow> string \<Rightarrow> fs \<Rightarrow> fs" where
  "writeFileSync path content files = files(path \<mapsto> content)"

section \<open>The operations of JavaScript that the store uses\<close>

text \<open>
  Object spread, \<open>{...source}\<close> into a literal that holds \<open>target\<close> so far:
  the own enumerable properties of the source are defined on the target in
  their order.
\<close>

definition copy_properties :: "(string \<times> json) list \<Rightarrow> (string \<times> json) list \<Rightarrow> (string \<times> json) list" where
  "copy_properties target source = fold (\<lambda>p acc. set_property (fst p) (snd p) acc) source target"

text \<open>
  The own enumerable properties of a value that is spread: those of an object;
  the indices of an array or of a string; none for a number, a boolean or
  \<open>null\<close>.
\<close>

fun own_properties :: "json \<Rightarrow> (string \<times> json) list" where
  "own_properties (JObj ps) = ps"
| "own_properties (JArr xs) = zip (map (\<lambda>i. number_to_string (int i)) [0..<length xs]) xs"
| "own_properties (JStr s) =
     zip (map (\<lambda>i. number_to_string (int i)) [0..<length s]) (map (\<lambda>c. JStr [c]) s)"
| "own_properties v = []"

text \<open>
  \<open>record.id\<close>: the property of an object, \<open>undefined\<close> when it has none;
  \<open>undefined\<close> on a number, a string, a boolean or an array; a \<open>TypeError\<close> on
  \<open>null\<close>.
\<close>

fun property_id :: "json \<Rightarrow> error + json option" where
  "property_id JNull = Inl TypeError"
| "property_id (JObj ps) = Inr (map_of ps ''id'')"
| "property_id v = Inr None"

text \<open>
  \<open>a === b\<close>, with no coercion: \<open>undefined\<close>, \<open>null\<close>, booleans, numbers and
  strings are compared by type and value (\<open>NaN\<close> is equal to no value);
  objects and arrays are compared by
  identity, and a value that \<open>JSON.parse\<close> has just built is identical to
  nothing the caller holds.  The first argument is the side read from the file.
\<close>

fun strict_equals :: "json option \<Rightarrow> json option \<Rightarrow> bool" where
  "strict_equals None b = (b = None)"
| "strict_equals (Some JNull) b = (b = Some JNull)"
| "strict_equals (Some (JBool x)) b = (b = Some (JBool x))"
| "strict_equals (Some (JNum n)) b = (b = Some (JNum n))"
| "strict_equals (Some JNaN) b = False"
| "strict_equals (Some (JStr s)) b = (b = Some (JStr s))"
| "strict_equals (Some (JArr xs)) b = False"
| "strict_equals (Some (JObj ps)) b = False"

text \<open>The two callbacks of the source: \<open>(record) => record.id === id\<close> and \<open>(record) => record.id !== id\<close>.\<close>

definition id_equals :: "json option \<Rightarrow> json \<Rightarrow> error + bool" where
  "id_equals ident record =
     (case property_id record of Inl e \<Rightarrow> Inl e | Inr v \<Rightarrow> Inr (strict_equals v ident))"

definition id_differs :: "json option \<Rightarrow> json \<Rightarrow> error + bool" where
  "id_differs ident record =
     (case property_id record of Inl e \<Rightarrow> Inl e | Inr v \<Rightarrow> Inr (\<not> strict_equals v ident))"

text \<open>
  \<open>Array.prototype.findIndex\<close> and \<open>Array.prototype.filter\<close> with a callback that
  can throw: the elements are visited in order and the first exception ends
  the call.  \<open>None\<close> is the index \<open>-1\<close>.
\<close>

fun findIndex :: "(json \<Rightarrow> error + bool) \<Rightarrow> json list \<Rightarrow> error + nat option" where
  "findIndex f [] = Inr None"
| "findIndex f (x # xs) =
     (case f x of
        Inl e \<Rightarrow> Inl e
      | Inr True \<Rightarrow> Inr (Some 0)
      | Inr False \<Rightarrow>
          (case findIndex f xs of
             Inl e \<Rightarrow> Inl e
           | Inr None \<Rightarrow> Inr None
           | Inr (Some i) \<Rightarrow> Inr (Some (Suc i))))"

fun array_filter :: "(json \<Rightarrow> error + bool) \<Rightarrow> json list \<Rightarrow> error + json list" where
  "array_filter f [] = Inr []"
| "array_filter f (x # xs) =
     (case f x of
        Inl e \<Rightarrow> Inl e
      | Inr keep \<Rightarrow>
          (case array_filter f xs of
             Inl e \<Rightarrow> Inl e
           | Inr ys \<Rightarrow> Inr (if keep then x # ys else ys)))"

section \<open>The class \<open>LocalJSONDB\<close>\<close>

text \<open>
  An instance holds its \<open>filePath\<close> and nothing else; the file is the state.
  Every method takes the files and returns its result with the files after
  the call; an exception leaves the files as they were, since every method
  writes last.
\<close>

record LocalJSONDB =
  filePath :: string

definition constructor :: "string \<Rightarrow> fs \<Rightarrow> LocalJSONDB \<times> fs" where
  "constructor path files =
     (\<lparr>filePath = path\<rparr>,
      if \<not> existsSync path files
      then writeFileSync path (JSON_stringify 0 (JArr [])) files
      else files)"

text \<open>
  \<open>read()\<close> and \<open>write(data)\<close>; the latter is \<open>write_data\<close> here.  The
  parameter \<open>id\<close> of \<open>update\<close> and \<open>delete\<close> is \<open>ident\<close>.
\<close>

definition read :: "LocalJSONDB \<Rightarrow> fs \<Rightarrow> error + json" where
  "read db files =
     (case readFileSync (filePath db) files of
        Inl e \<Rightarrow> Inl e
      | Inr data \<Rightarrow> JSON_parse data)"

definition write_data :: "LocalJSONDB \<Rightarrow> json \<Rightarrow> fs \<Rightarrow> fs" where
  "write_data db data files = writeFileSync (filePath db) (JSON_stringify 2 data) files"

text \<open>
  \<open>create(record)\<close>; \<open>now\<close> is the value of \<open>Date.now()\<close> at the call.  The new
  record is the literal \<open>{ id: Date.now(), ...record }\<close>: the property \<open>id\<close> is
  defined first and the properties of \<open>record\<close> are defined after it.
  \<open>data.push\<close> is a \<open>TypeError\<close> unless the file held an array.
\<close>

definition create :: "LocalJSONDB \<Rightarrow> int \<Rightarrow> (string \<times> json) list \<Rightarrow> fs \<Rightarrow> (error + json) \<times> fs" where
  "create db now record files =
     (case read db files of
        Inl e \<Rightarrow> (Inl e, files)
      | Inr data \<Rightarrow>
          (let newRecord = JObj (copy_properties [(''id'', JNum now)] record)
           in case data of
                JArr xs \<Rightarrow> (Inr newRecord, write_data db (JArr (xs @ [newRecord])) files)
              | _ \<Rightarrow> (Inl TypeError, files)))"

text \<open>
  \<open>update(id, updatedFields)\<close>; the result \<open>JNull\<close> is the \<open>null\<close> of a record
  that was not found.
\<close>

definition update :: "LocalJSONDB \<Rightarrow> json option \<Rightarrow> (string \<times> json) list \<Rightarrow> fs \<Rightarrow> (error + json) \<times> fs" where
  "update db ident updatedFields files =
     (case read db files of
        Inl e \<Rightarrow> (Inl e, files)
      | Inr data \<Rightarrow>
          (case data of
             JArr xs \<Rightarrow>
               (case findIndex (id_equals ident) xs of
                  Inl e \<Rightarrow> (Inl e, files)
                | Inr None \<Rightarrow> (Inr JNull, files)
                | Inr (Some index) \<Rightarrow>
                    (let updatedRecord =
                           JObj (copy_properties
                                   (copy_properties [] (own_properties (xs ! index)))
                                   updatedFields)
                     in (Inr updatedRecord,
                         write_data db (JArr (xs[index := updatedRecord])) files)))
           | _ \<Rightarrow> (Inl TypeError, files)))"

text \<open>\<open>delete(id)\<close>.\<close>

definition delete :: "LocalJSONDB \<Rightarrow> json option \<Rightarrow> fs \<Rightarrow> (error + bool) \<times> fs" where
  "delete db ident files =
     (case read db files of
        Inl e \<Rightarrow> (Inl e, files)
      | Inr data \<Rightarrow>
          (case data of
             JArr xs \<Rightarrow>
               (case array_filter (id_differs ident) xs of
                  Inl e \<Rightarrow> (Inl e, files)
                | Inr newData \<Rightarrow>
                    if length newData = length xs then (Inr False, files)
                    else (Inr True, write_data db (JArr newData) files))
           | _ \<Rightarrow> (Inl TypeError, files)))"

text \<open>\<open>query(filterFn)\<close>, for a \<open>filterFn\<close> that returns a boolean on every value.\<close>

definition query :: "LocalJSONDB \<Rightarrow> (json \<Rightarrow> bool) \<Rightarrow> fs \<Rightarrow> (error + json list) \<times> fs" where
  "query db filterFn files =
     (case read db files of
        Inl e \<Rightarrow> (Inl e, files)
      | Inr data \<Rightarrow>
          (case data of
             JArr xs \<Rightarrow> (Inr (filter filterFn xs), files)
           | _ \<Rightarrow> (Inl TypeError, files)))"




text \<open>A record, as the store means it: an object.\<close>

fun is_record :: "json \<Rightarrow> bool" where
  "is_record (JObj ps) = True"
| "is_record v = False"

section \<open>Notions used in the proofs\<close>

text \<open>
  A text that may follow a serialised number: it must not go on with a digit,
  a fraction or an exponent.
\<close>

definition terminator :: "string \<Rightarrow> bool" where
  "terminator s =
     (case s of [] \<Rightarrow> True
      | c # cs \<Rightarrow> \<not> is_digit c \<and> c \<noteq> CHR ''.'' \<and> c \<noteq> CHR ''e'' \<and> c \<noteq> CHR ''E'')"

definition digits_val :: "string \<Rightarrow> int \<Rightarrow> int" where
  "digits_val ds acc = fold (\<lambda>c a. 10 * a + digit_val c) ds acc"

definition value_start :: "char \<Rightarrow> bool" where
  "value_start c = (\<not> is_ws c \<and> c \<noteq> CHR '']'' \<and> c \<noteq> CHR ''}'' \<and> c \<noteq> CHR '','')"

section \<open>Numbers: parsing what was printed\<close>

lemma of_char_int_nonneg: "0 \<le> (of_char c :: int)"
  by (metis of_nat_0_le_iff of_nat_of_char)

lemma of_char_int_less: "(of_char c :: int) < 256"
  by (metis of_char_mod_256 pos_mod_bound zero_less_numeral)

lemma of_char_digit_char: "0 \<le> d \<Longrightarrow> d < 10 \<Longrightarrow> (of_char (digit_char d) :: int) = 48 + d"
  by (simp add: digit_char_def)

lemma is_digit_digit_char: "0 \<le> d \<Longrightarrow> d < 10 \<Longrightarrow> is_digit (digit_char d)"
  by (simp add: is_digit_def of_char_digit_char)

lemma digit_val_digit_char: "0 \<le> d \<Longrightarrow> d < 10 \<Longrightarrow> digit_val (digit_char d) = d"
  by (simp add: digit_val_def of_char_digit_char)

lemma digit_char_zero: "0 \<le> d \<Longrightarrow> d < 10 \<Longrightarrow> digit_char d = CHR ''0'' \<longleftrightarrow> d = 0"
proof -
  assume d: "0 \<le> d" "d < 10"
  have "digit_char d = CHR ''0'' \<longleftrightarrow> (of_char (digit_char d) :: int) = of_char (CHR ''0'')"
    by (metis char_of_char)
  also have "\<dots> \<longleftrightarrow> d = 0"
    using d by (simp add: of_char_digit_char)
  finally show ?thesis .
qed

declare digits.simps [simp del]

lemma digits_all: "0 \<le> n \<Longrightarrow> \<forall>c \<in> set (digits n). is_digit c"
proof (induction n rule: digits.induct)
  case (1 n)
  show ?case
  proof (cases "n < 10")
    case True
    with 1 show ?thesis
      by (subst digits.simps) (simp add: is_digit_digit_char)
  next
    case False
    with 1 show ?thesis
      by (subst digits.simps) (auto simp: is_digit_digit_char)
  qed
qed

lemma digits_nonempty: "digits n \<noteq> []"
  by (subst digits.simps) simp

lemma digits_hd: "0 < n \<Longrightarrow> hd (digits n) \<noteq> CHR ''0''"
proof (induction n rule: digits.induct)
  case (1 n)
  show ?case
  proof (cases "n < 10")
    case True
    with 1 show ?thesis
      by (subst digits.simps) (simp add: digit_char_zero)
  next
    case False
    then have "0 < n div 10" by simp
    with 1 False have "hd (digits (n div 10)) \<noteq> CHR ''0''" by simp
    with False show ?thesis
      by (subst digits.simps) (simp add: digits_nonempty)
  qed
qed

lemma parse_digits_append:
  "\<forall>c \<in> set ds. is_digit c \<Longrightarrow> (case rest of [] \<Rightarrow> True | c # cs \<Rightarrow> \<not> is_digit c) \<Longrightarrow>
   parse_digits acc (ds @ rest) = (digits_val ds acc, rest)"
  by (induction ds arbitrary: acc) (auto simp: digits_val_def split: list.splits)

lemma digits_val_digits:
  "0 \<le> n \<Longrightarrow> digits_val (digits n) acc = acc * 10 ^ length (digits n) + n"
proof (induction n arbitrary: acc rule: digits.induct)
  case (1 n)
  show ?case
  proof (cases "n < 10")
    case True
    with 1 show ?thesis
      by (subst (1 2) digits.simps) (simp add: digits_val_def digit_val_digit_char)
  next
    case False
    with 1 have IH: "digits_val (digits (n div 10)) acc
        = acc * 10 ^ length (digits (n div 10)) + n div 10"
      by simp
    have "digits_val (digits n) acc
        = 10 * digits_val (digits (n div 10)) acc + n mod 10"
      using False 1(2)
      by (subst digits.simps) (simp add: digits_val_def digit_val_digit_char)
    also have "\<dots> = acc * 10 ^ length (digits n) + n"
      using False by (subst (2) digits.simps) (simp add: IH algebra_simps)
    finally show ?thesis .
  qed
qed

lemma parse_int_part_digits:
  assumes "0 \<le> n" and "case rest of [] \<Rightarrow> True | c # cs \<Rightarrow> \<not> is_digit c"
  shows "parse_int_part (digits n @ rest) = Inr (n, rest)"
proof (cases "n = 0")
  case True
  have "digit_char 0 = CHR ''0''"
    using digit_char_zero [of 0] by simp
  with True show ?thesis
    by (subst digits.simps) (simp add: parse_int_part_def)
next
  case False
  with assms have pos: "0 < n" by simp
  obtain c cs where cs: "digits n = c # cs"
    using digits_nonempty [of n] by (cases "digits n") auto
  from digits_hd [OF pos] cs have c0: "c \<noteq> CHR ''0''" by simp
  from digits_all [OF assms(1)] cs have dc: "is_digit c" and dcs: "\<forall>x \<in> set cs. is_digit x"
    by auto
  have "digits_val (c # cs) 0 = n"
    using digits_val_digits [OF assms(1), of 0] cs by simp
  then have "digits_val cs (digit_val c) = n"
    by (simp add: digits_val_def)
  with c0 dc parse_digits_append [OF dcs assms(2)] show ?thesis
    by (simp add: parse_int_part_def cs)
qed

lemma parse_number_to_string:
  assumes "\<bar>n\<bar> \<le> max_safe_integer" and "terminator rest"
  shows "parse_number (number_to_string n @ rest) = Inr (JNum n, rest)"
proof -
  from assms(2) have t: "case rest of [] \<Rightarrow> True | c # cs \<Rightarrow> \<not> is_digit c"
    and nf: "\<not> starts_fraction rest"
    by (auto simp: terminator_def starts_fraction_def split: list.splits)
  show ?thesis
  proof (cases "n < 0")
    case True
    then have "parse_int_part (digits (- n) @ rest) = Inr (- n, rest)"
      using parse_int_part_digits [OF _ t, of "- n"] by simp
    with True assms(1) nf show ?thesis
      by (simp add: parse_number_def number_to_string_def)
  next
    case False
    then have n0: "0 \<le> n" by simp
    obtain c cs where cs: "digits n = c # cs"
      using digits_nonempty [of n] by (cases "digits n") auto
    from digits_all [OF n0] cs have "is_digit c" by auto
    then have "c \<noteq> CHR ''-''" by (auto simp: is_digit_def)
    with False assms(1) nf parse_int_part_digits [OF n0 t] cs show ?thesis
      by (simp add: parse_number_def number_to_string_def)
  qed
qed

section \<open>Strings: parsing what was quoted\<close>

declare parse_string_body.simps [simp del]
declare parse_value.simps [simp del] parse_elements.simps [simp del] parse_members.simps [simp del]

lemma hex_val_hex_char: "0 \<le> d \<Longrightarrow> d < 16 \<Longrightarrow> hex_val (hex_char d) = Some d"
  by (simp add: hex_val_def hex_char_def Let_def)

lemma hex4_escape:
  assumes "(of_char c :: int) < 32"
  shows "hex4 CHR ''0'' CHR ''0'' (hex_char (of_char c div 16)) (hex_char (of_char c mod 16)) = Inr c"
proof -
  let ?n = "of_char c :: int"
  have n0: "0 \<le> ?n" by (rule of_char_int_nonneg)
  have h1: "hex_val (hex_char (?n div 16)) = Some (?n div 16)"
    using assms n0 by (intro hex_val_hex_char) auto
  have h0: "hex_val (hex_char (?n mod 16)) = Some (?n mod 16)"
    by (intro hex_val_hex_char) auto
  have z: "hex_val CHR ''0'' = Some 0"
    by (simp add: hex_val_def)
  have "16 * (?n div 16) + ?n mod 16 = ?n" by simp
  moreover have "?n < 256" using assms by simp
  ultimately show ?thesis
    by (simp add: hex4_def h1 h0 z)
qed

lemma parse_string_body_escape:
  "parse_string_body (escape_char c @ t) = prepend c (parse_string_body t)"
proof -
  consider (special) "c = CHR 0x22 \<or> c = CHR 0x5C \<or> c = CHR 0x08 \<or> c = CHR 0x0C
        \<or> c = CHR 0x0A \<or> c = CHR 0x0D \<or> c = CHR 0x09"
    | (control) "\<not> (c = CHR 0x22 \<or> c = CHR 0x5C \<or> c = CHR 0x08 \<or> c = CHR 0x0C
        \<or> c = CHR 0x0A \<or> c = CHR 0x0D \<or> c = CHR 0x09)" "(of_char c :: int) < 32"
    | (plain) "c \<noteq> CHR 0x22" "c \<noteq> CHR 0x5C" "\<not> (of_char c :: int) < 32"
    by auto
  then show ?thesis
  proof cases
    case special
    then show ?thesis
      by (auto simp: escape_char_def parse_string_body.simps unescape_def)
  next
    case control
    then show ?thesis
      by (simp add: escape_char_def parse_string_body.simps hex4_escape)
  next
    case plain
    then have "escape_char c = [c]"
      by (auto simp: escape_char_def)
    with plain show ?thesis
      by (simp add: parse_string_body.simps)
  qed
qed

lemma parse_string_body_quote:
  "parse_string_body (concat (map escape_char s) @ CHR 0x22 # rest) = Inr (s, rest)"
  by (induction s) (simp_all add: parse_string_body.simps parse_string_body_escape prepend_def)

section \<open>Values: parsing what was serialised\<close>

lemma parse_value_ws: "\<forall>c \<in> set ws. is_ws c \<Longrightarrow> parse_value (ws @ s) = parse_value s"
  by (induction ws) (simp_all add: parse_value.simps)

lemma skip_ws_ws: "\<forall>c \<in> set ws. is_ws c \<Longrightarrow> skip_ws (ws @ s) = skip_ws s"
  by (induction ws) (simp_all add: skip_ws_def)

lemma skip_ws_start: "\<not> is_ws c \<Longrightarrow> skip_ws (c # s) = c # s"
  by (simp add: skip_ws_def)

lemma newline_ws: "\<forall>c \<in> set (newline gap ind). is_ws c"
  by (auto simp: newline_def is_ws_def)

lemma member_sep_ws: "\<forall>c \<in> set (member_sep gap). is_ws c"
  by (simp add: member_sep_def is_ws_def)

lemma join_Cons: "join sep (x # xs) = x @ concat (map (\<lambda>y. sep @ y) xs)"
  by (induction xs arbitrary: x) simp_all

lemma is_digit_value_start: "is_digit c \<Longrightarrow> value_start c"
  by (auto simp: is_digit_def value_start_def is_ws_def)

lemma serialize_start: "\<exists>c cs. serialize gap ind v = c # cs \<and> value_start c"
proof (cases v)
  case (JNum n)
  obtain c cs where cs: "digits \<bar>n\<bar> = c # cs"
    using digits_nonempty [of "\<bar>n\<bar>"] by (cases "digits \<bar>n\<bar>") auto
  with digits_all [of "\<bar>n\<bar>"] have "is_digit c" by auto
  then have "value_start c" by (rule is_digit_value_start)
  moreover have "value_start CHR ''-''" by (simp add: value_start_def is_ws_def)
  ultimately show ?thesis
    using JNum cs by (cases "n < 0") (auto simp: number_to_string_def abs_if)
qed (auto simp: value_start_def is_ws_def quote_def)

lemma terminator_simps:
  "terminator []"
  "terminator (CHR '','' # r)" "terminator (CHR '']'' # r)" "terminator (CHR ''}'' # r)"
  "terminator (newline gap ind @ CHR '']'' # r)" "terminator (newline gap ind @ CHR ''}'' # r)"
  by (simp_all add: terminator_def is_digit_def newline_def)

lemma not_ws_simps:
  "\<not> is_ws CHR '',''" "\<not> is_ws CHR '']''" "\<not> is_ws CHR ''}''" "\<not> is_ws CHR '':''"
  "\<not> is_ws CHR 0x22"
  by (simp_all add: is_ws_def)

lemma parse_elements_serialize:
  assumes "\<And>x ind rest. x \<in> set (x0 # xs) \<Longrightarrow> terminator rest \<Longrightarrow>
             parse_value (serialize gap ind x @ rest) = Inr (x, rest)"
  shows "parse_elements acc
           (newline gap j @ serialize gap j x0
              @ concat (map (\<lambda>y. (CHR '','' # newline gap j) @ serialize gap j y) xs)
              @ newline gap i @ CHR '']'' # rest)
         = Inr (JArr (acc @ x0 # xs), rest)"
  using assms
proof (induction xs arbitrary: x0 acc)
  case Nil
  have "parse_value (serialize gap j x0 @ newline gap i @ CHR '']'' # rest)
        = Inr (x0, newline gap i @ CHR '']'' # rest)"
    by (rule Nil) (simp_all add: terminator_simps)
  then show ?case
    by (subst parse_elements.simps)
       (simp add: parse_value_ws newline_ws skip_ws_ws skip_ws_start not_ws_simps)
next
  case (Cons y ys)
  let ?R = "newline gap j @ serialize gap j y
              @ concat (map (\<lambda>y. (CHR '','' # newline gap j) @ serialize gap j y) ys)
              @ newline gap i @ CHR '']'' # rest"
  have v: "parse_value (serialize gap j x0 @ CHR '','' # ?R) = Inr (x0, CHR '','' # ?R)"
    by (rule Cons.prems) (simp_all add: terminator_simps)
  have rec: "parse_elements (acc @ [x0]) ?R = Inr (JArr ((acc @ [x0]) @ y # ys), rest)"
    by (rule Cons.IH) (simp add: Cons.prems)
  obtain c cs where "serialize gap j x0 = c # cs"
    using serialize_start [of gap j x0] by blast
  then have len: "length ?R < length (newline gap j @ serialize gap j x0 @ CHR '','' # ?R)"
    by simp
  show ?case
    apply (subst parse_elements.simps)
    using v rec len
    apply (simp add: parse_value_ws newline_ws skip_ws_start not_ws_simps)
    done
qed

lemma set_property_fresh: "k \<notin> fst ` set ps \<Longrightarrow> set_property k v ps = ps @ [(k, v)]"
  by (induction ps) auto

lemma parse_members_serialize:
  assumes "\<And>p ind rest. p \<in> set (p0 # ps) \<Longrightarrow> terminator rest \<Longrightarrow>
             parse_value (serialize gap ind (snd p) @ rest) = Inr (snd p, rest)"
    and "distinct (map fst (acc @ p0 # ps))"
  shows "parse_members acc
           (newline gap j @ (quote (fst p0) @ '':'' @ member_sep gap @ serialize gap j (snd p0))
              @ concat (map (\<lambda>p. (CHR '','' # newline gap j)
                   @ quote (fst p) @ '':'' @ member_sep gap @ serialize gap j (snd p)) ps)
              @ newline gap i @ CHR ''}'' # rest)
         = Inr (JObj (acc @ p0 # ps), rest)"
  using assms
proof (induction ps arbitrary: p0 acc)
  case Nil
  have "parse_value (serialize gap j (snd p0) @ newline gap i @ CHR ''}'' # rest)
        = Inr (snd p0, newline gap i @ CHR ''}'' # rest)"
    by (rule Nil) (simp_all add: terminator_simps)
  moreover have "set_property (fst p0) (snd p0) acc = acc @ [p0]"
    using Nil.prems(2) by (simp add: set_property_fresh)
  ultimately show ?case
    by (subst parse_members.simps)
       (simp add: quote_def parse_string_body_quote parse_value_ws newline_ws member_sep_ws
          skip_ws_ws skip_ws_start not_ws_simps)
next
  case (Cons q qs)
  let ?R = "newline gap j @ (quote (fst q) @ '':'' @ member_sep gap @ serialize gap j (snd q))
              @ concat (map (\<lambda>p. (CHR '','' # newline gap j)
                   @ quote (fst p) @ '':'' @ member_sep gap @ serialize gap j (snd p)) qs)
              @ newline gap i @ CHR ''}'' # rest"
  have v: "parse_value (serialize gap j (snd p0) @ CHR '','' # ?R) = Inr (snd p0, CHR '','' # ?R)"
    by (rule Cons.prems) (simp_all add: terminator_simps)
  have sp: "set_property (fst p0) (snd p0) acc = acc @ [p0]"
    using Cons.prems(2) by (simp add: set_property_fresh)
  have rec: "parse_members (acc @ [p0]) ?R = Inr (JObj ((acc @ [p0]) @ q # qs), rest)"
    by (rule Cons.IH) (use Cons.prems in simp_all)
  show ?case
    apply (subst parse_members.simps)
    using v rec sp
    apply (simp add: quote_def parse_string_body_quote parse_value_ws newline_ws member_sep_ws
          skip_ws_ws skip_ws_start not_ws_simps)
    done
qed

lemma parse_value_serialize:
  "wf_json v \<Longrightarrow> terminator rest \<Longrightarrow> parse_value (serialize gap ind v @ rest) = Inr (v, rest)"
proof (induction v arbitrary: ind rest)
  case JNull
  then show ?case by (simp add: parse_value.simps is_ws_def expect_def)
next
  case (JBool b)
  then show ?case by (simp add: parse_value.simps is_ws_def expect_def)
next
  case (JNum n)
  obtain c cs where cs: "number_to_string n = c # cs" and st: "c = CHR ''-'' \<or> is_digit c"
  proof (cases "n < 0")
    case True
    then show ?thesis using that by (simp add: number_to_string_def)
  next
    case False
    obtain d ds where "digits n = d # ds"
      using digits_nonempty [of n] by (cases "digits n") auto
    moreover from this digits_all [of n] False have "is_digit d" by auto
    ultimately show ?thesis using that False by (simp add: number_to_string_def)
  qed
  from st have "\<not> is_ws c" "c \<noteq> CHR ''n''" "c \<noteq> CHR ''t''" "c \<noteq> CHR ''f''" "c \<noteq> CHR 0x22"
    "c \<noteq> CHR ''[''" "c \<noteq> CHR ''{''"
    by (auto simp: is_ws_def is_digit_def)
  with st have "parse_value (c # cs @ rest) = parse_number (c # cs @ rest)"
    by (simp add: parse_value.simps)
  with JNum cs parse_number_to_string [of n rest] show ?case
    by simp
next
  case JNaN
  then show ?case by simp
next
  case (JStr s)
  then show ?case
    by (simp add: parse_value.simps is_ws_def quote_def parse_string_body_quote)
next
  case (JArr xs)
  show ?case
  proof (cases xs)
    case Nil
    then show ?thesis
      by (simp add: parse_value.simps is_ws_def skip_ws_def)
  next
    case (Cons x0 ys)
    have IH: "\<And>x ind rest. x \<in> set (x0 # ys) \<Longrightarrow> terminator rest \<Longrightarrow>
             parse_value (serialize gap ind x @ rest) = Inr (x, rest)"
      using JArr Cons by auto
    obtain c cs where c: "serialize gap (ind + gap) x0 = c # cs" and vs: "value_start c"
      using serialize_start [of gap "ind + gap" x0] by blast
    let ?body = "newline gap (ind + gap) @ serialize gap (ind + gap) x0
              @ concat (map (\<lambda>y. (CHR '','' # newline gap (ind + gap)) @ serialize gap (ind + gap) y) ys)
              @ newline gap ind @ CHR '']'' # rest"
    have sk: "\<exists>r. skip_ws ?body = c # r \<and> c \<noteq> CHR '']''"
      using c vs by (simp add: skip_ws_ws newline_ws skip_ws_start value_start_def)
    have "parse_value (CHR ''['' # ?body) = parse_elements [] ?body"
      using sk by (auto simp: parse_value.simps is_ws_def)
    also have "\<dots> = Inr (JArr ([] @ x0 # ys), rest)"
      by (rule parse_elements_serialize) (rule IH)
    finally show ?thesis
      using Cons by (simp add: join_Cons comp_def)
  qed
next
  case (JObj ps)
  show ?case
  proof (cases ps)
    case Nil
    then show ?thesis
      by (simp add: parse_value.simps is_ws_def skip_ws_def)
  next
    case (Cons p0 qs)
    have IH: "\<And>p ind rest. p \<in> set (p0 # qs) \<Longrightarrow> terminator rest \<Longrightarrow>
             parse_value (serialize gap ind (snd p) @ rest) = Inr (snd p, rest)"
    proof -
      fix p :: "string \<times> json" and ind rest
      assume p: "p \<in> set (p0 # qs)" and t: "terminator rest"
      have "snd p \<in> Basic_BNFs.snds p"
        by (cases p) simp
      with JObj.IH [of p "snd p" rest ind] p t JObj.prems(1) Cons
      show "parse_value (serialize gap ind (snd p) @ rest) = Inr (snd p, rest)"
        by auto
    qed
    have d: "distinct (map fst ([] @ p0 # qs))"
      using JObj.prems(1) Cons by simp
    let ?body = "newline gap (ind + gap)
              @ (quote (fst p0) @ '':'' @ member_sep gap @ serialize gap (ind + gap) (snd p0))
              @ concat (map (\<lambda>p. (CHR '','' # newline gap (ind + gap))
                   @ quote (fst p) @ '':'' @ member_sep gap @ serialize gap (ind + gap) (snd p)) qs)
              @ newline gap ind @ CHR ''}'' # rest"
    have sk: "\<exists>r. skip_ws ?body = CHR 0x22 # r"
      by (simp add: skip_ws_ws newline_ws skip_ws_start not_ws_simps quote_def)
    have "parse_value (CHR ''{'' # ?body) = parse_members [] ?body"
      using sk by (auto simp: parse_value.simps is_ws_def)
    also have "\<dots> = Inr (JObj ([] @ p0 # qs), rest)"
      by (rule parse_members_serialize) (rule IH, assumption, assumption, rule d)
    finally show ?thesis
      using Cons by (simp add: join_Cons comp_def)
  qed
qed

lemma JSON_parse_stringify: "wf_json v \<Longrightarrow> JSON_parse (JSON_stringify space v) = Inr v"
  using parse_value_serialize [of v "[]" "min space 10" 0]
  by (simp add: JSON_parse_def JSON_stringify_def terminator_simps skip_ws_def)

section \<open>What the parser returns\<close>

lemma is_digit_val_nonneg: "is_digit c \<Longrightarrow> 0 \<le> digit_val c"
  by (simp add: is_digit_def digit_val_def)

lemma parse_digits_nonneg: "0 \<le> acc \<Longrightarrow> parse_digits acc s = (n, r) \<Longrightarrow> 0 \<le> n"
proof (induction s arbitrary: acc)
  case Nil
  then show ?case by simp
next
  case (Cons c cs)
  show ?case
  proof (cases "is_digit c")
    case True
    with Cons.prems have "parse_digits (10 * acc + digit_val c) cs = (n, r)"
      and "0 \<le> 10 * acc + digit_val c"
      using is_digit_val_nonneg [of c] by simp_all
    then show ?thesis using Cons.IH by blast
  next
    case False
    with Cons.prems show ?thesis by simp
  qed
qed

lemma parse_digits_length: "parse_digits acc s = (n, r) \<Longrightarrow> length r \<le> length s"
proof (induction s arbitrary: acc)
  case Nil
  then show ?case by simp
next
  case (Cons c cs)
  then show ?case
    by (cases "is_digit c") (auto dest: Cons.IH)
qed

lemma parse_int_part_nonneg: "parse_int_part s = Inr (n, r) \<Longrightarrow> 0 \<le> n"
  by (auto simp: parse_int_part_def split: list.splits if_splits
      dest: parse_digits_nonneg [rotated] is_digit_val_nonneg)

lemma parse_int_part_length: "parse_int_part s = Inr (n, r) \<Longrightarrow> length r < length s"
  by (auto simp: parse_int_part_def split: list.splits if_splits dest: parse_digits_length)

lemma parse_number_wf: "parse_number s = Inr (v, r) \<Longrightarrow> wf_json v"
  by (auto simp: parse_number_def Let_def split: sum.splits if_splits
      dest!: parse_int_part_nonneg)

lemma parse_number_length: "parse_number s = Inr (v, r) \<Longrightarrow> length r < length s"
  by (cases s)
     (auto simp: parse_number_def Let_def split: sum.splits if_splits
       dest!: parse_int_part_length)

lemma prepend_Inr: "prepend c res = Inr (s, r) \<Longrightarrow> \<exists>s'. res = Inr (s', r) \<and> s = c # s'"
  by (auto simp: prepend_def split: sum.splits)

lemma parse_string_body_length: "parse_string_body s = Inr (t, r) \<Longrightarrow> length r < length s"
proof (induction "length s" arbitrary: s t rule: less_induct)
  case less
  have IH: "length r < length s'" if "length s' < length s" "parse_string_body s' = Inr (t', r)"
    for s' t'
    using less(1) [OF that] .
  from less(2) show ?case
    by (cases s)
       (auto simp: parse_string_body.simps split: if_splits list.splits sum.splits option.splits
         dest!: prepend_Inr dest: IH [rotated])
qed

lemma expect_value: "expect lit v s = Inr (w, r) \<Longrightarrow> w = v"
  by (auto simp: expect_def split: if_splits)

lemma expect_length: "expect lit v s = Inr (w, r) \<Longrightarrow> length r \<le> length s"
  by (auto simp: expect_def split: if_splits)

lemma skip_ws_length: "skip_ws s = c # r \<Longrightarrow> length r < length s"
proof -
  assume "skip_ws s = c # r"
  then have "length (dropWhile is_ws s) = Suc (length r)"
    by (simp add: skip_ws_def)
  with length_dropWhile_le [of is_ws s] show ?thesis by simp
qed

lemma set_property_keys: "fst ` set (set_property k v ps) = insert k (fst ` set ps)"
  by (induction ps) auto

lemma set_property_distinct:
  "distinct (map fst ps) \<Longrightarrow> distinct (map fst (set_property k v ps))"
  by (induction ps) (auto simp: set_property_keys)

lemma set_property_values:
  "p \<in> set (set_property k v ps) \<Longrightarrow> p = (k, v) \<or> p \<in> set ps"
  by (induction ps) (auto split: if_splits)

lemma set_property_wf:
  "wf_json (JObj ps) \<Longrightarrow> wf_json v \<Longrightarrow> wf_json (JObj (set_property k v ps))"
  by (auto simp: set_property_distinct dest: set_property_values)

lemma parse_elements_cases:
  assumes "parse_elements acc s = Inr (v, r)"
  obtains (more) x y r' where "parse_value s = Inr (x, y)" "skip_ws y = CHR '','' # r'"
      "length r' < length s" "parse_elements (acc @ [x]) r' = Inr (v, r)"
  | (last) x y where "parse_value s = Inr (x, y)" "skip_ws y = CHR '']'' # r"
      "v = JArr (acc @ [x])"
  using assms
  by (subst (asm) parse_elements.simps) (auto split: sum.splits list.splits if_splits)

lemma parse_members_cases:
  assumes "parse_members acc s = Inr (v, r)"
  obtains (more) cs k y r1 x r2 r3 where "skip_ws s = CHR 0x22 # cs"
      "parse_string_body cs = Inr (k, y)" "skip_ws y = CHR '':'' # r1" "length r1 < length s"
      "parse_value r1 = Inr (x, r2)" "skip_ws r2 = CHR '','' # r3" "length r3 < length s"
      "parse_members (set_property k x acc) r3 = Inr (v, r)"
  | (last) cs k y r1 x r2 where "skip_ws s = CHR 0x22 # cs"
      "parse_string_body cs = Inr (k, y)" "skip_ws y = CHR '':'' # r1" "length r1 < length s"
      "parse_value r1 = Inr (x, r2)" "skip_ws r2 = CHR ''}'' # r"
      "v = JObj (set_property k x acc)"
  using assms
  by (subst (asm) parse_members.simps) (auto split: sum.splits list.splits if_splits)

lemma parse_value_cases:
  assumes "parse_value (c # cs) = Inr (v, r)"
  obtains (ws) "is_ws c" "parse_value cs = Inr (v, r)"
  | (lit) lit where "\<not> is_ws c" "expect lit v cs = Inr (v, r)"
      "v = JNull \<or> v = JBool True \<or> v = JBool False"
  | (str) s where "\<not> is_ws c" "parse_string_body cs = Inr (s, r)" "v = JStr s"
  | (empty_arr) "\<not> is_ws c" "skip_ws cs = CHR '']'' # r" "v = JArr []"
  | (arr) "\<not> is_ws c" "parse_elements [] cs = Inr (v, r)"
  | (empty_obj) "\<not> is_ws c" "skip_ws cs = CHR ''}'' # r" "v = JObj []"
  | (obj) "\<not> is_ws c" "parse_members [] cs = Inr (v, r)"
  | (num) "\<not> is_ws c" "parse_number (c # cs) = Inr (v, r)"
proof (cases "is_ws c")
  case True
  with assms ws show ?thesis by (simp add: parse_value.simps)
next
  case nws: False
  consider "c = CHR ''n''" | "c = CHR ''t''" | "c = CHR ''f''" | "c = CHR 0x22"
    | "c = CHR ''[''" | "c = CHR ''{''"
    | "c \<noteq> CHR ''n''" "c \<noteq> CHR ''t''" "c \<noteq> CHR ''f''" "c \<noteq> CHR 0x22" "c \<noteq> CHR ''[''"
      "c \<noteq> CHR ''{''"
    by blast
  then show ?thesis
  proof cases
    case 1
    with assms nws have e: "expect ''ull'' JNull cs = Inr (v, r)"
      by (simp add: parse_value.simps)
    then have "v = JNull" by (rule expect_value)
    with e nws lit show ?thesis by blast
  next
    case 2
    with assms nws have e: "expect ''rue'' (JBool True) cs = Inr (v, r)"
      by (simp add: parse_value.simps)
    then have "v = JBool True" by (rule expect_value)
    with e nws lit show ?thesis by blast
  next
    case 3
    with assms nws have e: "expect ''alse'' (JBool False) cs = Inr (v, r)"
      by (simp add: parse_value.simps)
    then have "v = JBool False" by (rule expect_value)
    with e nws lit show ?thesis by blast
  next
    case 4
    with assms nws str show ?thesis
      by (auto simp: parse_value.simps split: sum.splits)
  next
    case 5
    with assms nws have **: "(case skip_ws cs of
           [] \<Rightarrow> Inl SyntaxError
         | c' # r \<Rightarrow> if c' = CHR '']'' then Inr (JArr [], r) else parse_elements [] cs)
         = Inr (v, r)"
      by (simp add: parse_value.simps)
    then obtain c' r' where sk: "skip_ws cs = c' # r'"
      by (cases "skip_ws cs") auto
    show ?thesis
    proof (cases "c' = CHR '']''")
      case True
      with ** sk nws empty_arr show ?thesis by simp
    next
      case False
      with ** sk nws arr show ?thesis by simp
    qed
  next
    case 6
    with assms nws have **: "(case skip_ws cs of
           [] \<Rightarrow> Inl SyntaxError
         | c' # r \<Rightarrow> if c' = CHR ''}'' then Inr (JObj [], r) else parse_members [] cs)
         = Inr (v, r)"
      by (simp add: parse_value.simps)
    then obtain c' r' where sk: "skip_ws cs = c' # r'"
      by (cases "skip_ws cs") auto
    show ?thesis
    proof (cases "c' = CHR ''}''")
      case True
      with ** sk nws empty_obj show ?thesis by simp
    next
      case False
      with ** sk nws obj show ?thesis by simp
    qed
  next
    case 7
    with assms nws have "parse_number (c # cs) = Inr (v, r)"
      by (simp add: parse_value.simps split: if_splits)
    with nws num show ?thesis by blast
  qed
qed

text \<open>Every value that the parser returns is a JavaScript value: no object has a name twice.\<close>

lemma parse_wf_aux:
  "(parse_value s = Inr (v, r) \<longrightarrow> wf_json v)
   \<and> (\<forall>acc. parse_elements acc s = Inr (v, r) \<longrightarrow> (\<forall>x \<in> set acc. wf_json x) \<longrightarrow> wf_json v)
   \<and> (\<forall>acc. parse_members acc s = Inr (v, r) \<longrightarrow> wf_json (JObj acc) \<longrightarrow> wf_json v)"
proof (induction "length s" arbitrary: s v r rule: less_induct)
  case less
  have val: "wf_json v" if "parse_value s = Inr (v, r)" for v r
  proof (cases s)
    case Nil
    with that show ?thesis by (simp add: parse_value.simps)
  next
    case (Cons c cs)
    then have shorter: "length cs < length s" by simp
    from that [unfolded Cons] show ?thesis
    proof (cases rule: parse_value_cases)
      case ws
      with less [OF shorter] show ?thesis by blast
    next
      case arr
      with less [OF shorter] show ?thesis by simp
    next
      case obj
      with less [OF shorter] show ?thesis by simp
    next
      case num
      then show ?thesis by (auto dest: parse_number_wf)
    qed auto
  qed
  have elems: "wf_json v" if "parse_elements acc s = Inr (v, r)" "\<forall>x \<in> set acc. wf_json x"
    for acc v r
    using that(1)
  proof (cases rule: parse_elements_cases)
    case (more x y r')
    from more(1) have "wf_json x" by (rule val)
    with that(2) have "\<forall>x \<in> set (acc @ [x]). wf_json x" by simp
    with less [OF more(3)] more(4) show ?thesis by blast
  next
    case (last x y)
    from last(1) have "wf_json x" by (rule val)
    with that(2) last(3) show ?thesis by simp
  qed
  have membs: "wf_json v" if "parse_members acc s = Inr (v, r)" "wf_json (JObj acc)"
    for acc v r
    using that(1)
  proof (cases rule: parse_members_cases)
    case (more cs k y r1 x r2 r3)
    from less [OF more(4)] more(5) have "wf_json x" by blast
    with that(2) have "wf_json (JObj (set_property k x acc))" by (rule set_property_wf)
    with less [OF more(7)] more(8) show ?thesis by blast
  next
    case (last cs k y r1 x r2)
    from less [OF last(4)] last(5) have "wf_json x" by blast
    with that(2) last(7) show ?thesis by (simp only: set_property_wf)
  qed
  from val elems membs show ?case by blast
qed

lemma parse_value_wf: "parse_value s = Inr (v, r) \<Longrightarrow> wf_json v"
  using parse_wf_aux by blast

lemma JSON_parse_wf: "JSON_parse s = Inr v \<Longrightarrow> wf_json v"
  by (auto simp: JSON_parse_def split: sum.splits if_splits dest: parse_value_wf)

text \<open>
  Every call of the parser consumes some text, so the comparisons of lengths
  in \<open>parse_elements\<close> and \<open>parse_members\<close> always succeed.
\<close>

lemma parse_length_aux:
  "(parse_value s = Inr (v, r) \<longrightarrow> length r < length s)
   \<and> (\<forall>acc. parse_elements acc s = Inr (v, r) \<longrightarrow> length r < length s)
   \<and> (\<forall>acc. parse_members acc s = Inr (v, r) \<longrightarrow> length r < length s)"
proof (induction "length s" arbitrary: s v r rule: less_induct)
  case less
  have val: "length r < length s" if "parse_value s = Inr (v, r)" for v r
  proof (cases s)
    case Nil
    with that show ?thesis by (simp add: parse_value.simps)
  next
    case (Cons c cs)
    then have shorter: "length cs < length s" by simp
    from that [unfolded Cons] show ?thesis
    proof (cases rule: parse_value_cases)
      case ws
      with less [OF shorter] Cons show ?thesis by fastforce
    next
      case (lit l)
      with Cons show ?thesis by (auto dest: expect_length)
    next
      case (str t)
      with Cons show ?thesis by (auto dest: parse_string_body_length)
    next
      case empty_arr
      with Cons show ?thesis by (auto dest: skip_ws_length)
    next
      case arr
      with less [OF shorter] Cons show ?thesis by fastforce
    next
      case empty_obj
      with Cons show ?thesis by (auto dest: skip_ws_length)
    next
      case obj
      with less [OF shorter] Cons show ?thesis by fastforce
    next
      case num
      with Cons show ?thesis by (auto dest: parse_number_length)
    qed
  qed
  have elems: "length r < length s" if "parse_elements acc s = Inr (v, r)" for acc v r
    using that
  proof (cases rule: parse_elements_cases)
    case (more x y r')
    with less [OF more(3)] have "length r < length r'" by blast
    with more(3) show ?thesis by simp
  next
    case (last x y)
    from last(1) have "length y < length s" by (rule val)
    with skip_ws_length [OF last(2)] show ?thesis by simp
  qed
  have membs: "length r < length s" if "parse_members acc s = Inr (v, r)" for acc v r
    using that
  proof (cases rule: parse_members_cases)
    case (more cs k y r1 x r2 r3)
    with less [OF more(7)] have "length r < length r3" by blast
    with more(7) show ?thesis by simp
  next
    case (last cs k y r1 x r2)
    from less [OF last(4)] last(5) have "length r2 < length r1" by blast
    with skip_ws_length [OF last(6)] last(4) show ?thesis by simp
  qed
  from val elems membs show ?case by blast
qed

lemma parse_value_length: "parse_value s = Inr (v, r) \<Longrightarrow> length r < length s"
  using parse_length_aux by blast

lemma parse_elements_unguarded:
  "parse_elements acc s =
     (case parse_value s of
        Inl e \<Rightarrow> Inl e
      | Inr (v, r) \<Rightarrow>
          (case skip_ws r of
             [] \<Rightarrow> Inl SyntaxError
           | c # r' \<Rightarrow>
               if c = CHR '','' then parse_elements (acc @ [v]) r'
               else if c = CHR '']'' then Inr (JArr (acc @ [v]), r')
               else Inl SyntaxError))"
proof (cases "parse_value s")
  case (Inl e)
  then show ?thesis by (subst parse_elements.simps) simp
next
  case (Inr p)
  obtain v r where p: "p = (v, r)" by (cases p)
  with Inr have lr: "length r < length s" by (auto dest: parse_value_length)
  show ?thesis
  proof (cases "skip_ws r")
    case Nil
    with Inr p show ?thesis by (subst parse_elements.simps) simp
  next
    case (Cons c r')
    with lr have "length r' < length s" by (auto dest: skip_ws_length)
    with Inr p Cons show ?thesis by (subst parse_elements.simps) simp
  qed
qed

lemma parse_members_unguarded:
  "parse_members acc s =
     (case skip_ws s of
        [] \<Rightarrow> Inl SyntaxError
      | c # cs \<Rightarrow>
          if c = CHR 0x22 then
            (case parse_string_body cs of
               Inl e \<Rightarrow> Inl e
             | Inr (k, r) \<Rightarrow>
                 (case skip_ws r of
                    [] \<Rightarrow> Inl SyntaxError
                  | c1 # r1 \<Rightarrow>
                      if c1 = CHR '':'' then
                        (case parse_value r1 of
                           Inl e \<Rightarrow> Inl e
                         | Inr (v, r2) \<Rightarrow>
                             (case skip_ws r2 of
                                [] \<Rightarrow> Inl SyntaxError
                              | c2 # r3 \<Rightarrow>
                                  if c2 = CHR '','' then parse_members (set_property k v acc) r3
                                  else if c2 = CHR ''}'' then
                                    Inr (JObj (set_property k v acc), r3)
                                  else Inl SyntaxError))
                      else Inl SyntaxError))
          else Inl SyntaxError)"
proof -
  have g1: "length r1 < length s"
    if "skip_ws s = c # cs" "parse_string_body cs = Inr (k, r)" "skip_ws r = c1 # r1"
    for c cs k r c1 r1
    using that
    by (auto dest!: skip_ws_length parse_string_body_length)
  have g3: "length r3 < length s"
    if "length r1 < length s" "parse_value r1 = Inr (v, r2)" "skip_ws r2 = c2 # r3"
    for r1 v r2 c2 r3
    using that
    by (auto dest!: skip_ws_length parse_value_length)
  show ?thesis
    by (subst parse_members.simps)
       (auto split: list.splits sum.splits dest: g1 g3)
qed

section \<open>Reading back what was written\<close>

lemma read_write_data: "wf_json data \<Longrightarrow> read db (write_data db data files) = Inr data"
  by (simp add: read_def write_data_def readFileSync_def writeFileSync_def JSON_parse_stringify)

lemma read_wf: "read db files = Inr v \<Longrightarrow> wf_json v"
  by (auto simp: read_def split: sum.splits dest: JSON_parse_wf)

lemma read_content:
  "files (filePath db) = Some content \<Longrightarrow> read db files = JSON_parse content"
  by (simp add: read_def readFileSync_def)

section \<open>Object spread\<close>

lemma map_of_set_property: "map_of (set_property k v ps) = (map_of ps)(k \<mapsto> v)"
  by (induction ps) auto

lemma map_of_copy_properties:
  "map_of (copy_properties target source) = map_of target ++ map_of (rev source)"
proof (induction source arbitrary: target)
  case Nil
  then show ?case by (simp add: copy_properties_def)
next
  case (Cons p source)
  have "map_of (copy_properties target (p # source))
      = map_of (copy_properties (set_property (fst p) (snd p) target) source)"
    by (simp add: copy_properties_def)
  also have "\<dots> = (map_of target)(fst p \<mapsto> snd p) ++ map_of (rev source)"
    by (simp only: Cons.IH map_of_set_property)
  also have "\<dots> = map_of target ++ map_of (rev (p # source))"
    by (cases p) (simp add: map_add_upd_left fun_eq_iff map_add_def split: option.splits)
  finally show ?case .
qed

lemma map_of_rev_distinct: "distinct (map fst ps) \<Longrightarrow> map_of (rev ps) = map_of ps"
proof (induction ps)
  case Nil
  then show ?case by simp
next
  case (Cons p ps)
  then have "fst p \<notin> dom (map_of ps)"
    by (simp add: dom_map_of_conv_image_fst)
  then have "map_of ps (fst p) = None" by blast
  with Cons show ?case
    by (cases p) (auto simp: fun_eq_iff map_add_def split: option.splits)
qed

lemma copy_properties_lookup:
  "distinct (map fst source) \<Longrightarrow>
   map_of (copy_properties target source) k
     = (case map_of source k of Some v \<Rightarrow> Some v | None \<Rightarrow> map_of target k)"
  by (simp add: map_of_copy_properties map_of_rev_distinct map_add_def)

lemma copy_properties_distinct:
  "distinct (map fst target) \<Longrightarrow> distinct (map fst (copy_properties target source))"
  unfolding copy_properties_def
  by (induction source arbitrary: target) (simp_all add: set_property_distinct)

lemma copy_properties_values:
  "p \<in> set (copy_properties target source) \<Longrightarrow> p \<in> set target \<or> p \<in> set source"
  unfolding copy_properties_def
proof (induction source arbitrary: target)
  case Nil
  then show ?case by simp
next
  case (Cons q source)
  from Cons.IH [of "set_property (fst q) (snd q) target"] Cons.prems
  show ?case by (auto dest: set_property_values)
qed

lemma copy_properties_wf:
  "wf_json (JObj target) \<Longrightarrow> \<forall>p \<in> set source. wf_json (snd p) \<Longrightarrow>
   wf_json (JObj (copy_properties target source))"
  by (auto simp: copy_properties_distinct dest!: copy_properties_values)

lemma copy_properties_fresh:
  "distinct (map fst (target @ source)) \<Longrightarrow> copy_properties target source = target @ source"
  unfolding copy_properties_def
proof (induction source arbitrary: target)
  case Nil
  then show ?case by simp
next
  case (Cons p source)
  then have "set_property (fst p) (snd p) target = target @ [p]"
    by (simp add: set_property_fresh)
  moreover have "distinct (map fst ((target @ [p]) @ source))"
    using Cons.prems by simp
  ultimately show ?case
    using Cons.IH [of "target @ [p]"] by simp
qed

lemma own_properties_wf: "wf_json x \<Longrightarrow> \<forall>p \<in> set (own_properties x). wf_json (snd p)"
  by (cases x) (auto dest!: set_zip_rightD)

section \<open>The callbacks, \<open>findIndex\<close> and \<open>filter\<close>\<close>

lemma strict_equals_same: "strict_equals a b \<Longrightarrow> a = b"
  by (induction a b rule: strict_equals.induct) auto

lemma id_equals_record: "is_record x \<Longrightarrow> \<exists>b. id_equals ident x = Inr b"
  by (cases x) (simp_all add: id_equals_def)

lemma id_differs_equals:
  "id_differs ident x = Inr b \<longleftrightarrow> id_equals ident x = Inr (\<not> b)"
  by (auto simp: id_differs_def id_equals_def split: sum.splits)

lemma findIndex_None: "\<forall>x \<in> set xs. f x = Inr False \<Longrightarrow> findIndex f xs = Inr None"
  by (induction xs) simp_all

lemma findIndex_Some:
  "findIndex f xs = Inr (Some i) \<Longrightarrow>
   i < length xs \<and> f (xs ! i) = Inr True \<and> (\<forall>j < i. f (xs ! j) = Inr False)"
proof (induction xs arbitrary: i)
  case Nil
  then show ?case by simp
next
  case (Cons x xs)
  show ?case
  proof (cases "f x = Inr True")
    case True
    with Cons.prems show ?thesis by simp
  next
    case False
    with Cons.prems obtain i' where fx: "f x = Inr False" and i: "i = Suc i'"
      and rec: "findIndex f xs = Inr (Some i')"
      by (auto split: sum.splits bool.splits option.splits)
    from Cons.IH [OF rec] fx i show ?thesis
      by (auto simp: less_Suc_eq_0_disj)
  qed
qed

lemma findIndex_exists:
  "\<forall>x \<in> set xs. \<exists>b. f x = Inr b \<Longrightarrow> \<exists>x \<in> set xs. f x = Inr True \<Longrightarrow>
   \<exists>i. findIndex f xs = Inr (Some i)"
proof (induction xs)
  case Nil
  then show ?case by simp
next
  case (Cons x xs)
  show ?case
  proof (cases "f x = Inr True")
    case True
    then show ?thesis by simp
  next
    case False
    with Cons.prems have fx: "f x = Inr False" and "\<exists>y \<in> set xs. f y = Inr True"
      by auto
    with Cons obtain i where "findIndex f xs = Inr (Some i)" by auto
    with fx show ?thesis by simp
  qed
qed

lemma array_filter_total:
  "\<forall>x \<in> set xs. \<exists>b. f x = Inr b \<Longrightarrow>
   array_filter f xs = Inr (filter (\<lambda>x. f x = Inr True) xs)"
  by (induction xs) auto




lemma length_filter_same: "length (filter P xs) = length xs \<longleftrightarrow> (\<forall>x \<in> set xs. P x)"
proof (induction xs)
  case Nil
  then show ?case by simp
next
  case (Cons x xs)
  show ?case
  proof (cases "P x")
    case True
    with Cons show ?thesis by simp
  next
    case False
    have "length (filter P xs) < Suc (length xs)"
      by (simp add: le_imp_less_Suc)
    with False show ?thesis by auto
  qed
qed

lemma id_differs_record: "is_record x \<Longrightarrow> \<exists>b. id_differs ident x = Inr b"
  by (cases x) (simp_all add: id_differs_def)

lemma wf_json_list_update:
  "wf_json (JArr xs) \<Longrightarrow> wf_json v \<Longrightarrow> wf_json (JArr (xs[i := v]))"
  using set_update_subset_insert [of xs i v] by auto

lemma spread_record: "distinct (map fst old) \<Longrightarrow> copy_properties [] old = old"
  using copy_properties_fresh [of "[]" old] by simp

lemma merged_wf:
  "wf_json x \<Longrightarrow> wf_json (JObj updatedFields) \<Longrightarrow>
   wf_json (JObj (copy_properties (copy_properties [] (own_properties x)) updatedFields))"
proof -
  assume x: "wf_json x" and f: "wf_json (JObj updatedFields)"
  have "wf_json (JObj [])" by simp
  with own_properties_wf [OF x] have "wf_json (JObj (copy_properties [] (own_properties x)))"
    by (rule copy_properties_wf [rotated])
  moreover from f have "\<forall>p \<in> set updatedFields. wf_json (snd p)" by simp
  ultimately show ?thesis by (rule copy_properties_wf)
qed

section \<open>What \<open>create\<close> returns\<close>

lemma create_returns_literal:
  "read db files = Inr (JArr xs) \<Longrightarrow>
   create db now record files
     = (Inr (JObj (copy_properties [(''id'', JNum now)] record)),
        write_data db (JArr (xs @ [JObj (copy_properties [(''id'', JNum now)] record)])) files)"
  by (simp add: create_def Let_def)

lemma literal_id:
  "distinct (map fst record) \<Longrightarrow>
   map_of (copy_properties [(''id'', JNum now)] record) ''id''
     = Some (case map_of record ''id'' of Some v \<Rightarrow> v | None \<Rightarrow> JNum now)"
  by (simp add: copy_properties_lookup split: option.splits)

section \<open>Construction\<close>

text \<open>
  Claim C8.  For every path at which no file exists, constructing a store with
  that path creates the file with the text \<open>[]\<close>, the serialised empty
  array, and changes no other file; a \<open>read()\<close> on the fresh store returns the
  empty array.
\<close>

theorem constructor_creates_empty_store:
  assumes "files path = None"
  shows "snd (constructor path files) path = Some ''[]''
       \<and> snd (constructor path files) path = Some (JSON_stringify 0 (JArr []))
       \<and> (\<forall>p. p \<noteq> path \<longrightarrow> snd (constructor path files) p = files p)
       \<and> read (fst (constructor path files)) (snd (constructor path files)) = Inr (JArr [])"
proof -
  have s: "JSON_stringify 0 (JArr []) = ''[]''"
    by (simp add: JSON_stringify_def)
  have p: "JSON_parse ''[]'' = Inr (JArr [])"
    by (simp add: JSON_parse_def parse_value.simps is_ws_def skip_ws_def)
  from assms show ?thesis
    by (simp add: constructor_def existsSync_def writeFileSync_def read_def readFileSync_def s p)
qed

theorem constructor_creates_empty_store_witness:
  "(Map.empty :: fs) ''db.json'' = None
   \<and> snd (constructor ''db.json'' Map.empty) ''db.json'' = Some ''[]''
   \<and> read (fst (constructor ''db.json'' Map.empty)) (snd (constructor ''db.json'' Map.empty))
       = Inr (JArr [])"
  using constructor_creates_empty_store [of Map.empty "''db.json''"] by simp

text \<open>
  Claim C9.  For every path at which a file exists, constructing a store with
  that path leaves the files as they are, whatever the content of the file
  is, a text that is not JSON included.
\<close>

theorem constructor_keeps_existing_file:
  assumes "files path = Some content"
  shows "snd (constructor path files) = files"
  using assms by (simp add: constructor_def existsSync_def)

theorem constructor_keeps_existing_file_witness:
  "[''db.json'' \<mapsto> ''not json''] ''db.json'' = Some ''not json''
   \<and> JSON_parse ''not json'' = Inl SyntaxError
   \<and> snd (constructor ''db.json'' [''db.json'' \<mapsto> ''not json'']) = [''db.json'' \<mapsto> ''not json'']"
proof -
  have "JSON_parse ''not json'' = Inl SyntaxError"
    by code_simp
  with constructor_keeps_existing_file [of "[''db.json'' \<mapsto> ''not json'']" "''db.json''" "''not json''"]
  show ?thesis by simp
qed

section \<open>Reading\<close>

text \<open>
  Claim C2 says that \<open>read()\<close> fails whenever the content of the file is not
  valid JSON or is JSON for a value that is not an array.  The source parses
  the content and returns the value, with no look at its shape: on the content
  \<open>{}\<close> it returns the empty object.
\<close>

theorem read_returns_non_array_counterexample:
  "read \<lparr>filePath = ''db.json''\<rparr> [''db.json'' \<mapsto> ''{}''] = Inr (JObj [])"
  by code_simp

text \<open>
  Claim C2, amended.  For every content of the file, \<open>read()\<close> fails with the
  \<open>SyntaxError\<close> of \<open>JSON.parse\<close> whenever the content is not valid JSON; a
  content that is valid JSON is returned as the value it denotes, whatever
  its shape, so that a value that is not an array is returned as well.
\<close>

theorem read_returns_what_parses:
  assumes "files (filePath db) = Some content"
  shows "(JSON_parse content = Inl SyntaxError \<longrightarrow> read db files = Inl SyntaxError)
       \<and> (\<forall>v. JSON_parse content = Inr v \<longrightarrow> read db files = Inr v)"
  using assms by (simp add: read_def readFileSync_def)

theorem read_returns_what_parses_witness:
  "[''db.json'' \<mapsto> ''[1, 2''] (filePath \<lparr>filePath = ''db.json''\<rparr>) = Some ''[1, 2''
   \<and> JSON_parse ''[1, 2'' = Inl SyntaxError
   \<and> read \<lparr>filePath = ''db.json''\<rparr> [''db.json'' \<mapsto> ''[1, 2''] = Inl SyntaxError"
proof -
  have "JSON_parse ''[1, 2'' = Inl SyntaxError"
    by code_simp
  with read_returns_what_parses [of "[''db.json'' \<mapsto> ''[1, 2'']" "\<lparr>filePath = ''db.json''\<rparr>" "''[1, 2''"]
  show ?thesis by simp
qed

section \<open>Querying\<close>

text \<open>
  Claim C7.  For every array in the file and every predicate, \<open>query\<close> returns
  the elements on which the predicate is true, each as often as it occurs and
  in the order of the array, and leaves the files as they are.
\<close>

theorem query_filters_in_order:
  assumes "read db files = Inr (JArr xs)"
  shows "\<exists>ys. query db filterFn files = (Inr ys, files)
            \<and> ys = filter filterFn xs
            \<and> subseq ys xs
            \<and> (\<forall>x. count_list ys x = (if filterFn x then count_list xs x else 0))"
proof -
  have "count_list (filter filterFn xs) x = (if filterFn x then count_list xs x else 0)" for x
    by (induction xs) auto
  with assms show ?thesis
    by (simp add: query_def)
qed

theorem query_filters_in_order_witness:
  \<open>read \<lparr>filePath = ''db.json''\<rparr> [''db.json'' \<mapsto> ''[{"id": 1}, 7, {"id": 2}]'']
     = Inr (JArr [JObj [(''id'', JNum 1)], JNum 7, JObj [(''id'', JNum 2)]])
   \<and> query \<lparr>filePath = ''db.json''\<rparr> is_record [''db.json'' \<mapsto> ''[{"id": 1}, 7, {"id": 2}]'']
     = (Inr [JObj [(''id'', JNum 1)], JObj [(''id'', JNum 2)]],
        [''db.json'' \<mapsto> ''[{"id": 1}, 7, {"id": 2}]''])\<close>
proof -
  have r: \<open>read \<lparr>filePath = ''db.json''\<rparr> [''db.json'' \<mapsto> ''[{"id": 1}, 7, {"id": 2}]'']
     = Inr (JArr [JObj [(''id'', JNum 1)], JNum 7, JObj [(''id'', JNum 2)]])\<close>
    by code_simp
  from query_filters_in_order [OF r, of is_record] r show ?thesis
    by simp
qed

section \<open>Updating and deleting with an \<open>id\<close> that matches nothing\<close>

text \<open>
  Claim C5.  For every array in the file and every \<open>id\<close> for which the test
  \<open>record.id === id\<close> is false on every element, \<open>update\<close> returns \<open>null\<close>,
  throws nothing and leaves the files as they are.
\<close>

theorem update_unknown_id_returns_null:
  assumes "read db files = Inr (JArr xs)"
    and "\<forall>x \<in> set xs. id_equals ident x = Inr False"
  shows "update db ident updatedFields files = (Inr JNull, files)"
  using assms by (simp add: update_def findIndex_None)

theorem update_unknown_id_returns_null_witness:
  \<open>read \<lparr>filePath = ''db.json''\<rparr> [''db.json'' \<mapsto> ''[{"id": 1, "name": "a"}]'']
     = Inr (JArr [JObj [(''id'', JNum 1), (''name'', JStr ''a'')]])
   \<and> id_equals (Some (JNum 2)) (JObj [(''id'', JNum 1), (''name'', JStr ''a'')]) = Inr False
   \<and> update \<lparr>filePath = ''db.json''\<rparr> (Some (JNum 2)) [(''name'', JStr ''z'')]
        [''db.json'' \<mapsto> ''[{"id": 1, "name": "a"}]'']
     = (Inr JNull, [''db.json'' \<mapsto> ''[{"id": 1, "name": "a"}]''])\<close>
proof -
  have r: \<open>read \<lparr>filePath = ''db.json''\<rparr> [''db.json'' \<mapsto> ''[{"id": 1, "name": "a"}]'']
     = Inr (JArr [JObj [(''id'', JNum 1), (''name'', JStr ''a'')]])\<close>
    by code_simp
  have m: "id_equals (Some (JNum 2)) (JObj [(''id'', JNum 1), (''name'', JStr ''a'')]) = Inr False"
    by (simp add: id_equals_def)
  from update_unknown_id_returns_null [OF r, of "Some (JNum 2)" "[(''name'', JStr ''z'')]"] r m
  show ?thesis by simp
qed

text \<open>
  Claim C10.  \<open>update\<close> and \<open>delete\<close> match a record by \<open>===\<close>: the test is true
  only when the \<open>id\<close> of the record and the given \<open>id\<close> are the same value of
  the same type.  So for every array of records in the file none of which
  has the given \<open>id\<close>, \<open>delete\<close> returns \<open>false\<close> and \<open>update\<close> returns \<open>null\<close>,
  and the files stay as they are: the string \<open>"5"\<close> matches no record whose
  \<open>id\<close> is the number 5.
\<close>

theorem id_match_is_strict:
  "(\<forall>x. id_equals ident x = Inr True \<longrightarrow> property_id x = Inr ident)
   \<and> (read db files = Inr (JArr xs) \<longrightarrow>
       (\<forall>x \<in> set xs. is_record x \<and> property_id x \<noteq> Inr ident) \<longrightarrow>
         delete db ident files = (Inr False, files)
       \<and> update db ident updatedFields files = (Inr JNull, files))"
proof -
  have strict: "property_id x = Inr ident" if "id_equals ident x = Inr True" for x
    using that by (auto simp: id_equals_def split: sum.splits dest: strict_equals_same)
  have none: "id_equals ident x = Inr False" if "is_record x" "property_id x \<noteq> Inr ident" for x
  proof -
    from that(1) obtain b where b: "id_equals ident x = Inr b"
      using id_equals_record by blast
    with strict [of x] that(2) show ?thesis by (cases b) auto
  qed
  have "delete db ident files = (Inr False, files)
      \<and> update db ident updatedFields files = (Inr JNull, files)"
    if r: "read db files = Inr (JArr xs)"
      and xs: "\<forall>x \<in> set xs. is_record x \<and> property_id x \<noteq> Inr ident"
  proof -
    from xs have f: "\<forall>x \<in> set xs. id_equals ident x = Inr False"
      using none by blast
    then have "\<forall>x \<in> set xs. id_differs ident x = Inr True"
      by (simp add: id_differs_equals)
    then have "array_filter (id_differs ident) xs = Inr xs"
      by (induction xs) simp_all
    with r f show ?thesis
      by (simp add: delete_def update_def findIndex_None)
  qed
  with strict show ?thesis by blast
qed

theorem id_match_is_strict_witness:
  \<open>read \<lparr>filePath = ''db.json''\<rparr> [''db.json'' \<mapsto> ''[{"id": 5}]''] = Inr (JArr [JObj [(''id'', JNum 5)]])
   \<and> property_id (JObj [(''id'', JNum 5)]) = Inr (Some (JNum 5))
   \<and> delete \<lparr>filePath = ''db.json''\<rparr> (Some (JStr ''5'')) [''db.json'' \<mapsto> ''[{"id": 5}]'']
       = (Inr False, [''db.json'' \<mapsto> ''[{"id": 5}]''])
   \<and> update \<lparr>filePath = ''db.json''\<rparr> (Some (JStr ''5'')) [(''name'', JStr ''z'')]
        [''db.json'' \<mapsto> ''[{"id": 5}]'']
       = (Inr JNull, [''db.json'' \<mapsto> ''[{"id": 5}]''])\<close>
proof -
  have r: \<open>read \<lparr>filePath = ''db.json''\<rparr> [''db.json'' \<mapsto> ''[{"id": 5}]'']
      = Inr (JArr [JObj [(''id'', JNum 5)]])\<close>
    by code_simp
  from id_match_is_strict [of "Some (JStr ''5'')" "\<lparr>filePath = ''db.json''\<rparr>"
      \<open>[''db.json'' \<mapsto> ''[{"id": 5}]'']\<close> "[JObj [(''id'', JNum 5)]]" "[(''name'', JStr ''z'')]"] r
  show ?thesis by simp
qed

section \<open>Deleting\<close>

text \<open>
  Claim C6.  For every array of records in the file, \<open>delete(id)\<close> keeps the
  records on which \<open>record.id === id\<close> is false and removes every other one,
  not only the first.  When no record has the \<open>id\<close> it returns \<open>false\<close> and
  leaves the files as they are; otherwise it writes the records that are kept,
  returns \<open>true\<close>, and the next \<open>read()\<close> returns the records that are kept, none
  of which has the \<open>id\<close>.
\<close>

theorem delete_removes_every_match:
  assumes "read db files = Inr (JArr xs)" and "\<forall>x \<in> set xs. is_record x"
  shows "\<exists>kept. kept = filter (\<lambda>x. id_equals ident x = Inr False) xs
       \<and> (\<forall>x \<in> set kept. id_equals ident x \<noteq> Inr True)
       \<and> (if \<forall>x \<in> set xs. id_equals ident x = Inr False
          then delete db ident files = (Inr False, files)
          else delete db ident files = (Inr True, write_data db (JArr kept) files)
             \<and> read db (snd (delete db ident files)) = Inr (JArr kept))"
proof -
  let ?kept = "filter (\<lambda>x. id_equals ident x = Inr False) xs"
  from assms(2) have total: "\<forall>x \<in> set xs. \<exists>b. id_differs ident x = Inr b"
    by (simp add: id_differs_record)
  have same: "(\<lambda>x. id_differs ident x = Inr True) = (\<lambda>x. id_equals ident x = Inr False)"
    by (simp add: id_differs_equals)
  have flt: "array_filter (id_differs ident) xs = Inr ?kept"
    using array_filter_total [OF total] by (simp only: same)
  have len: "length ?kept = length xs \<longleftrightarrow> (\<forall>x \<in> set xs. id_equals ident x = Inr False)"
    by (rule length_filter_same)
  from assms(1) have "wf_json (JArr xs)" by (rule read_wf)
  then have "wf_json (JArr ?kept)" by simp
  then have readback: "read db (write_data db (JArr ?kept) files) = Inr (JArr ?kept)"
    by (rule read_write_data)
  have del: "delete db ident files =
      (if \<forall>x \<in> set xs. id_equals ident x = Inr False then (Inr False, files)
       else (Inr True, write_data db (JArr ?kept) files))"
    using assms(1) flt len by (simp add: delete_def)
  have absent: "\<forall>x \<in> set ?kept. id_equals ident x \<noteq> Inr True"
    by simp
  show ?thesis
  proof (cases "\<forall>x \<in> set xs. id_equals ident x = Inr False")
    case True
    with del absent show ?thesis by simp
  next
    case False
    with del have d: "delete db ident files = (Inr True, write_data db (JArr ?kept) files)"
      by simp
    with readback have "read db (snd (delete db ident files)) = Inr (JArr ?kept)"
      by simp
    with d False absent show ?thesis by simp
  qed
qed


theorem delete_removes_every_match_witness:
  \<open>read \<lparr>filePath = ''db.json''\<rparr>
      [''db.json'' \<mapsto> ''[{"id": 1, "n": "a"}, {"id": 2}, {"id": 1, "n": "c"}]'']
     = Inr (JArr [JObj [(''id'', JNum 1), (''n'', JStr ''a'')], JObj [(''id'', JNum 2)],
                  JObj [(''id'', JNum 1), (''n'', JStr ''c'')]])
   \<and> fst (delete \<lparr>filePath = ''db.json''\<rparr> (Some (JNum 1))
      [''db.json'' \<mapsto> ''[{"id": 1, "n": "a"}, {"id": 2}, {"id": 1, "n": "c"}]'']) = Inr True
   \<and> read \<lparr>filePath = ''db.json''\<rparr> (snd (delete \<lparr>filePath = ''db.json''\<rparr> (Some (JNum 1))
      [''db.json'' \<mapsto> ''[{"id": 1, "n": "a"}, {"id": 2}, {"id": 1, "n": "c"}]'']))
     = Inr (JArr [JObj [(''id'', JNum 2)]])\<close>
proof -
  let ?db = "\<lparr>filePath = ''db.json''\<rparr>"
  let ?files = \<open>[''db.json'' \<mapsto> ''[{"id": 1, "n": "a"}, {"id": 2}, {"id": 1, "n": "c"}]'']\<close>
  let ?xs = "[JObj [(''id'', JNum 1), (''n'', JStr ''a'')], JObj [(''id'', JNum 2)],
              JObj [(''id'', JNum 1), (''n'', JStr ''c'')]]"
  have r: "read ?db ?files = Inr (JArr ?xs)"
    by code_simp
  have recs: "\<forall>x \<in> set ?xs. is_record x"
    by simp
  have kept: "filter (\<lambda>x. id_equals (Some (JNum 1)) x = Inr False) ?xs = [JObj [(''id'', JNum 2)]]"
    by (simp add: id_equals_def)
  have some: "\<not> (\<forall>x \<in> set ?xs. id_equals (Some (JNum 1)) x = Inr False)"
    by (simp add: id_equals_def)
  from delete_removes_every_match [OF r recs, of "Some (JNum 1)"]
  have "delete ?db (Some (JNum 1)) ?files
          = (Inr True,
             write_data ?db (JArr (filter (\<lambda>x. id_equals (Some (JNum 1)) x = Inr False) ?xs)) ?files)
      \<and> read ?db (snd (delete ?db (Some (JNum 1)) ?files))
          = Inr (JArr (filter (\<lambda>x. id_equals (Some (JNum 1)) x = Inr False) ?xs))"
    unfolding if_not_P [OF some] by blast
  then have e: "delete ?db (Some (JNum 1)) ?files
          = (Inr True,
             write_data ?db (JArr (filter (\<lambda>x. id_equals (Some (JNum 1)) x = Inr False) ?xs)) ?files)"
    and rb: "read ?db (snd (delete ?db (Some (JNum 1)) ?files))
          = Inr (JArr (filter (\<lambda>x. id_equals (Some (JNum 1)) x = Inr False) ?xs))"
    by blast+
  have d: "fst (delete ?db (Some (JNum 1)) ?files) = Inr True"
    by (subst e) (rule fst_conv)
  from r d rb [unfolded kept] show ?thesis
    by (intro conjI)
qed

section \<open>Updating\<close>

text \<open>
  Claim C4.  For every array of records in the file in which some record has
  the given \<open>id\<close>, \<open>update(id, partialFields)\<close> takes the first such record,
  returns it with the fields of \<open>partialFields\<close> merged over its own (a field
  of \<open>partialFields\<close> replaces the field of the same name, \<open>id\<close> included, and
  the other fields of the record stay), and writes the array with the merged
  record at the place of the old one and every other record as it was.
\<close>

theorem update_merges_first_match:
  assumes "read db files = Inr (JArr xs)"
    and "\<forall>x \<in> set xs. is_record x"
    and "\<exists>x \<in> set xs. id_equals ident x = Inr True"
    and "wf_json (JObj partialFields)"
  shows "\<exists>i old merged.
           i < length xs \<and> xs ! i = JObj old
         \<and> id_equals ident (xs ! i) = Inr True
         \<and> (\<forall>j < i. id_equals ident (xs ! j) = Inr False)
         \<and> (\<forall>k. map_of merged k
                = (case map_of partialFields k of Some v \<Rightarrow> Some v | None \<Rightarrow> map_of old k))
         \<and> update db ident partialFields files
             = (Inr (JObj merged), write_data db (JArr (xs[i := JObj merged])) files)
         \<and> read db (snd (update db ident partialFields files)) = Inr (JArr (xs[i := JObj merged]))"
proof -
  from assms(2) have total: "\<forall>x \<in> set xs. \<exists>b. id_equals ident x = Inr b"
    by (simp add: id_equals_record)
  from findIndex_exists [OF total assms(3)]
  obtain i where fi: "findIndex (id_equals ident) xs = Inr (Some i)" by blast
  from findIndex_Some [OF fi] have i: "i < length xs"
    and hit: "id_equals ident (xs ! i) = Inr True"
    and first: "\<forall>j < i. id_equals ident (xs ! j) = Inr False"
    by blast+
  from i assms(2) have "is_record (xs ! i)" by simp
  then obtain old where old: "xs ! i = JObj old"
    by (cases "xs ! i") simp_all
  from assms(1) have wxs: "wf_json (JArr xs)" by (rule read_wf)
  with i have wold: "wf_json (xs ! i)" by simp
  define merged where "merged = copy_properties old partialFields"
  have spread: "copy_properties (copy_properties [] (own_properties (xs ! i))) partialFields = merged"
    using wold by (simp add: old merged_def spread_record)
  from assms(4) have "distinct (map fst partialFields)" by simp
  then have look: "\<forall>k. map_of merged k
        = (case map_of partialFields k of Some v \<Rightarrow> Some v | None \<Rightarrow> map_of old k)"
    by (simp add: merged_def copy_properties_lookup)
  have "wf_json (JObj merged)"
    using merged_wf [OF wold assms(4)] by (simp only: spread)
  with wxs have "wf_json (JArr (xs[i := JObj merged]))"
    by (rule wf_json_list_update)
  then have rb: "read db (write_data db (JArr (xs[i := JObj merged])) files)
      = Inr (JArr (xs[i := JObj merged]))"
    by (rule read_write_data)
  have upd: "update db ident partialFields files
      = (Inr (JObj merged), write_data db (JArr (xs[i := JObj merged])) files)"
    using assms(1) fi spread by (simp add: update_def Let_def)
  with rb have "read db (snd (update db ident partialFields files))
      = Inr (JArr (xs[i := JObj merged]))"
    by simp
  with i old hit first look upd show ?thesis by blast
qed

theorem update_merges_first_match_witness:
  \<open>read \<lparr>filePath = ''db.json''\<rparr> [''db.json'' \<mapsto>
        ''[{"id": 1, "name": "a"}, {"id": 2, "name": "b", "age": 3}, {"id": 2, "name": "d"}]'']
     = Inr (JArr [JObj [(''id'', JNum 1), (''name'', JStr ''a'')],
                  JObj [(''id'', JNum 2), (''name'', JStr ''b''), (''age'', JNum 3)],
                  JObj [(''id'', JNum 2), (''name'', JStr ''d'')]])
   \<and> fst (update \<lparr>filePath = ''db.json''\<rparr> (Some (JNum 2)) [(''name'', JStr ''c'')]
        [''db.json'' \<mapsto>
          ''[{"id": 1, "name": "a"}, {"id": 2, "name": "b", "age": 3}, {"id": 2, "name": "d"}]''])
     = Inr (JObj [(''id'', JNum 2), (''name'', JStr ''c''), (''age'', JNum 3)])
   \<and> read \<lparr>filePath = ''db.json''\<rparr>
        (snd (update \<lparr>filePath = ''db.json''\<rparr> (Some (JNum 2)) [(''name'', JStr ''c'')]
        [''db.json'' \<mapsto>
          ''[{"id": 1, "name": "a"}, {"id": 2, "name": "b", "age": 3}, {"id": 2, "name": "d"}]'']))
     = Inr (JArr [JObj [(''id'', JNum 1), (''name'', JStr ''a'')],
                  JObj [(''id'', JNum 2), (''name'', JStr ''c''), (''age'', JNum 3)],
                  JObj [(''id'', JNum 2), (''name'', JStr ''d'')]])\<close>
proof -
  let ?db = "\<lparr>filePath = ''db.json''\<rparr>"
  let ?files = \<open>[''db.json'' \<mapsto>
        ''[{"id": 1, "name": "a"}, {"id": 2, "name": "b", "age": 3}, {"id": 2, "name": "d"}]'']\<close>
  let ?xs = "[JObj [(''id'', JNum 1), (''name'', JStr ''a'')],
              JObj [(''id'', JNum 2), (''name'', JStr ''b''), (''age'', JNum 3)],
              JObj [(''id'', JNum 2), (''name'', JStr ''d'')]]"
  let ?m = "[(''id'', JNum 2), (''name'', JStr ''c''), (''age'', JNum 3)]"
  have r: "read ?db ?files = Inr (JArr ?xs)"
    by code_simp
  have ev: "fst (update ?db (Some (JNum 2)) [(''name'', JStr ''c'')] ?files) = Inr (JObj ?m)"
    by code_simp
  have recs: "\<forall>x \<in> set ?xs. is_record x" by simp
  have ex: "\<exists>x \<in> set ?xs. id_equals (Some (JNum 2)) x = Inr True"
    by (simp add: id_equals_def)
  have wf: "wf_json (JObj [(''name'', JStr ''c'')])" by simp
  from update_merges_first_match [OF r recs ex wf]
  obtain i old merged where i: "i < length ?xs"
    and "?xs ! i = JObj old"
    and hit: "id_equals (Some (JNum 2)) (?xs ! i) = Inr True"
    and first: "\<forall>j < i. id_equals (Some (JNum 2)) (?xs ! j) = Inr False"
    and upd: "update ?db (Some (JNum 2)) [(''name'', JStr ''c'')] ?files
             = (Inr (JObj merged), write_data ?db (JArr (?xs[i := JObj merged])) ?files)"
    and rb: "read ?db (snd (update ?db (Some (JNum 2)) [(''name'', JStr ''c'')] ?files))
             = Inr (JArr (?xs[i := JObj merged]))"
    by blast
  from ev upd have m: "merged = ?m" by simp
  from i have "i = 0 \<or> i = 1 \<or> i = 2" by auto
  moreover have "i \<noteq> 0"
  proof
    assume "i = 0"
    with hit show False by (simp add: id_equals_def)
  qed
  moreover have "i \<noteq> 2"
  proof
    assume "i = 2"
    with first [rule_format, of 1] show False by (simp add: id_equals_def)
  qed
  ultimately have "i = 1" by blast
  with rb m have "read ?db (snd (update ?db (Some (JNum 2)) [(''name'', JStr ''c'')] ?files))
      = Inr (JArr [JObj [(''id'', JNum 1), (''name'', JStr ''a'')], JObj ?m,
                   JObj [(''id'', JNum 2), (''name'', JStr ''d'')]])"
    by simp
  with r ev show ?thesis by (intro conjI)
qed

section \<open>Sequences of calls\<close>




section \<open>Creating\<close>

text \<open>
  Claim C1 says that the \<open>id\<close> of the record that \<open>create\<close> returns is the
  identifier that the store made, whatever \<open>id\<close> the caller supplied.  In the
  literal \<open>{ id: Date.now(), ...record }\<close> the spread comes after the \<open>id\<close>, so
  an \<open>id\<close> of the caller replaces the one that was made: with the record
  \<open>{"id": 5, "name": "a"}\<close> in the file, \<open>create({id: 5, name: "b"})\<close> at the time
  1700000000000 returns \<open>{id: 5, name: "b"}\<close>, and the file then holds two
  records with the \<open>id\<close> 5.
\<close>

theorem create_keeps_caller_id:
  \<open>fst (create \<lparr>filePath = ''db.json''\<rparr> 1700000000000 [(''id'', JNum 5), (''name'', JStr ''b'')]
          [''db.json'' \<mapsto> ''[{"id": 5, "name": "a"}]''])
     = Inr (JObj [(''id'', JNum 5), (''name'', JStr ''b'')])
   \<and> read \<lparr>filePath = ''db.json''\<rparr>
        (snd (create \<lparr>filePath = ''db.json''\<rparr> 1700000000000
                [(''id'', JNum 5), (''name'', JStr ''b'')]
                [''db.json'' \<mapsto> ''[{"id": 5, "name": "a"}]'']))
     = Inr (JArr [JObj [(''id'', JNum 5), (''name'', JStr ''a'')],
                  JObj [(''id'', JNum 5), (''name'', JStr ''b'')]])\<close>
  by code_simp

end
